theory Spec2Isabelle
  imports Complex_Main "HOL-Library.Multiset" "HOL-Library.Log_Nat"
begin

section \<open>The blob game: terrain generation, seeding and the simulation tick\<close>

text \<open>
  A shallow embedding of \<^verbatim>\<open>src/app/game.jsx\<close>. Coordinates, counters and chain
  values are \<^typ>\<open>int\<close>: the doubles that hold them are exact below \<open>2^53\<close>. The
  values of \<^verbatim>\<open>Math.random()\<close> and the probabilities compared with them are
  \<^typ>\<open>rat\<close>; the division by 100 that computes a probability and the product in
  \<^verbatim>\<open>Math.floor(Math.random() * n)\<close> are rounded to the nearest double, as the
  program's are. Every function that calls
  \<^verbatim>\<open>Math.random()\<close> takes the random source and the number of draws made so far,
  and returns the new number of draws. A thrown \<^verbatim>\<open>TypeError\<close> is the value
  \<open>Inl TypeError\<close>.
\<close>

subsection \<open>Constants\<close>

definition gridSize :: int where
  "gridSize = 100"

definition maxStepsWithoutFood :: int where
  "maxStepsWithoutFood = 100"

definition initialBlobCount :: nat where
  "initialBlobCount = 100"

definition initialFoodCount :: nat where
  "initialFoodCount = 100"

subsection \<open>The random source\<close>

text \<open>
  \<^verbatim>\<open>Math.random()\<close> returns a double \<open>r\<close> with \<open>0 \<le> r < 1\<close>. The largest double
  below \<open>1\<close> is \<open>1 - 2^(-53)\<close>; the type of a draw holds the numbers from \<open>0\<close> to
  that one, so every value that \<^verbatim>\<open>Math.random()\<close> can return is a draw. The source
  is the sequence of the draws.
\<close>

typedef draw = "{r :: rat. 0 \<le> r \<and> r \<le> 1 - 1 / 2 ^ 53}"
  by (rule exI [of _ 0]) simp

type_synonym rng = "nat \<Rightarrow> draw"

definition Math_random :: "rng \<Rightarrow> nat \<Rightarrow> rat" where
  "Math_random rnd k = Rep_draw (rnd k)"

subsection \<open>Double arithmetic\<close>

text \<open>Rounding to the nearest integer, a tie to the even one.\<close>

definition roundEven :: "rat \<Rightarrow> int" where
  "roundEven y =
     (let n = \<lfloor>y\<rfloor>; r = y - of_int n
      in if r < 1 / 2 then n else if 1 / 2 < r then n + 1 else if even n then n else n + 1)"

text \<open>
  The binary exponent of a positive number \<open>x\<close>, the \<open>e\<close> with \<open>2^e \<le> x < 2^(e + 1)\<close>,
  and \<open>-1022\<close> for the smaller ones (the subnormal doubles share that exponent).
\<close>

definition binExp :: "rat \<Rightarrow> int" where
  "binExp x =
     (let (p, q) = quotient_of x;
          d = bitlen p - bitlen q;
          e = (if 2 powi d \<le> x then d else d - 1)
      in max e (- 1022))"

text \<open>
  The double nearest to a number, a tie to the even significand: 53 significant bits at
  the binary exponent of the number. A result beyond the largest double (which the
  program would hold as \<^verbatim>\<open>Infinity\<close>) does not arise: the quotients rounded here are at
  most 1, the products below the length of an array.
\<close>

definition toDouble :: "rat \<Rightarrow> rat" where
  "toDouble x =
     (if x = 0 then 0
      else (let u = 2 powi (binExp \<bar>x\<bar> - 52)
            in sgn x * of_int (roundEven (\<bar>x\<bar> / u)) * u))"

text \<open>
  \<^verbatim>\<open>Math.floor(Math.random() * n)\<close>, the \<open>k\<close>-th draw scaled to \<open>n\<close>: the product is
  rounded to a double, then floored.
\<close>

definition randInt :: "rng \<Rightarrow> nat \<Rightarrow> int \<Rightarrow> int" where
  "randInt rnd k n = \<lfloor>toDouble (Math_random rnd k * of_int n)\<rfloor>"

subsection \<open>Data\<close>

datatype error = TypeError

text \<open>
  The value of a blob's \<^verbatim>\<open>stepsSinceMeal\<close> property: a number, \<^verbatim>\<open>NaN\<close>, or
  \<^verbatim>\<open>undefined\<close> when the object has no such property.
\<close>

datatype jsnum = Undefined | NaN | Num int

text \<open>\<^verbatim>\<open>v + 1\<close>: \<^verbatim>\<open>undefined + 1\<close> and \<^verbatim>\<open>NaN + 1\<close> are \<^verbatim>\<open>NaN\<close>.\<close>

fun js_succ :: "jsnum \<Rightarrow> jsnum" where
  "js_succ (Num n) = Num (n + 1)"
| "js_succ Undefined = NaN"
| "js_succ NaN = NaN"

text \<open>\<^verbatim>\<open>v < c\<close>: every comparison with \<^verbatim>\<open>NaN\<close> (and so with \<^verbatim>\<open>undefined\<close>) is false.\<close>

fun js_less :: "jsnum \<Rightarrow> int \<Rightarrow> bool" where
  "js_less (Num n) c = (n < c)"
| "js_less Undefined c = False"
| "js_less NaN c = False"

text \<open>A food item \<^verbatim>\<open>{x, y}\<close> is the pair \<open>(x, y)\<close>.\<close>

type_synonym food_item = "int \<times> int"

record blob =
  blob_x :: int
  blob_y :: int
  stepsSinceMeal :: jsnum

record simState =
  food :: "food_item list"
  blobs :: "blob list"

subsection \<open>Array operations\<close>

text \<open>\<^verbatim>\<open>xs.findIndex(p)\<close>: the first index whose element satisfies \<open>p\<close>; \<open>None\<close> for \<open>-1\<close>.\<close>

fun findIndex :: "('a \<Rightarrow> bool) \<Rightarrow> 'a list \<Rightarrow> nat option" where
  "findIndex p [] = None"
| "findIndex p (a # as) =
     (if p a then Some 0 else map_option Suc (findIndex p as))"

text \<open>\<^verbatim>\<open>xs.splice(i, 1)\<close>: the array without its element at index \<open>i\<close>.\<close>

definition splice1 :: "nat \<Rightarrow> 'a list \<Rightarrow> 'a list" where
  "splice1 i xs = take i xs @ drop (Suc i) xs"

text \<open>The predicate \<^verbatim>\<open>(f) => f.x === x && f.y === y\<close>.\<close>

definition atPos :: "int \<Rightarrow> int \<Rightarrow> food_item \<Rightarrow> bool" where
  "atPos px py f = (fst f = px \<and> snd f = py)"

subsection \<open>The simulation tick\<close>

text \<open>Step 2 of the tick: the offsets \<open>(dx, dy)\<close> whose target is inside the grid.\<close>

definition neighbors :: "int \<Rightarrow> int \<Rightarrow> (int \<times> int) list" where
  "neighbors px py =
     concat (map (\<lambda>dx. concat (map (\<lambda>dy.
        if dx = 0 \<and> dy = 0 then []
        else if px + dx \<ge> 0 \<and> px + dx < gridSize \<and> py + dy \<ge> 0 \<and> py + dy < gridSize
          then [(dx, dy)] else [])
       [-1, 0, 1])) [-1, 0, 1])"

text \<open>
  The callback of \<^verbatim>\<open>prevState.blobs.map\<close>: one blob against the food array as the
  blobs before it left it. Reading \<^verbatim>\<open>chosenMove.dx\<close> of an \<^verbatim>\<open>undefined\<close> move
  (an index outside the array of moves) throws.
\<close>

definition blobStep ::
  "rng \<Rightarrow> nat \<Rightarrow> food_item list \<Rightarrow> blob \<Rightarrow> error + (blob \<times> food_item list \<times> nat)" where
  "blobStep rnd k newFood b =
     (let px = blob_x b; py = blob_y b in
      case findIndex (atPos px py) newFood of
        Some foodIndexAtCurrent \<Rightarrow>
          Inr (\<lparr>blob_x = px, blob_y = py, stepsSinceMeal = Num 0\<rparr>,
               splice1 foodIndexAtCurrent newFood, k)
      | None \<Rightarrow>
         (let nbs = neighbors px py;
              foodNeighbors =
                filter (\<lambda>move. list_ex (atPos (px + fst move) (py + snd move)) newFood) nbs;
              moves = (if length foodNeighbors > 0 then foodNeighbors else nbs);
              i = randInt rnd k (int (length moves))
          in if i < 0 \<or> i \<ge> int (length moves) then Inl TypeError
             else
              (let chosenMove = moves ! nat i;
                   newX = px + fst chosenMove;
                   newY = py + snd chosenMove
               in case findIndex (atPos newX newY) newFood of
                    Some foodIndexAtNew \<Rightarrow>
                      Inr (\<lparr>blob_x = newX, blob_y = newY, stepsSinceMeal = Num 0\<rparr>,
                           splice1 foodIndexAtNew newFood, k + 1)
                  | None \<Rightarrow>
                      Inr (\<lparr>blob_x = newX, blob_y = newY,
                             stepsSinceMeal = js_succ (stepsSinceMeal b)\<rparr>,
                           newFood, k + 1))))"

text \<open>\<^verbatim>\<open>prevState.blobs.map(...)\<close>: the blobs in sequence order, the food array threaded.\<close>

fun mapBlobs ::
  "rng \<Rightarrow> nat \<Rightarrow> food_item list \<Rightarrow> blob list \<Rightarrow> error + (blob list \<times> food_item list \<times> nat)" where
  "mapBlobs rnd k newFood [] = Inr ([], newFood, k)"
| "mapBlobs rnd k newFood (b # bs) =
     (case blobStep rnd k newFood b of
        Inl e \<Rightarrow> Inl e
      | Inr (b', newFood', k') \<Rightarrow>
         (case mapBlobs rnd k' newFood' bs of
            Inl e \<Rightarrow> Inl e
          | Inr (bs', newFood'', k'') \<Rightarrow> Inr (b' # bs', newFood'', k'')))"

text \<open>The cull: \<^verbatim>\<open>.filter((blob) => blob.stepsSinceMeal < maxStepsWithoutFood)\<close>.\<close>

definition cull :: "blob list \<Rightarrow> blob list" where
  "cull bs = filter (\<lambda>b. js_less (stepsSinceMeal b) maxStepsWithoutFood) bs"

text \<open>The updater given to \<^verbatim>\<open>setSimState\<close>: one tick.\<close>

definition advance :: "rng \<Rightarrow> nat \<Rightarrow> simState \<Rightarrow> error + (simState \<times> nat)" where
  "advance rnd k prevState =
     (case mapBlobs rnd k (food prevState) (blobs prevState) of
        Inl e \<Rightarrow> Inl e
      | Inr (newBlobs, newFood, k') \<Rightarrow> Inr (\<lparr>food = newFood, blobs = cull newBlobs\<rparr>, k'))"

subsection \<open>Terrain\<close>

datatype TerrainKind = Soil | Sand | Water

text \<open>The grid is an array of rows; a cell is \<^verbatim>\<open>null\<close> (\<open>None\<close>) until it is assigned.\<close>

type_synonym grid = "TerrainKind option list list"

text \<open>
  \<^verbatim>\<open>grid[y][x]\<close> as the seeding functions read it, from a grid they are given: a
  missing row is \<^verbatim>\<open>undefined\<close> and indexing it throws; a missing cell of a row reads
  \<^verbatim>\<open>undefined\<close>, which like \<^verbatim>\<open>null\<close> is not a terrain kind (\<open>None\<close>).
\<close>

definition readCell :: "grid \<Rightarrow> int \<Rightarrow> int \<Rightarrow> error + TerrainKind option" where
  "readCell grid px py =
     (if py < 0 \<or> py \<ge> int (length grid) then Inl TypeError
      else if px < 0 \<or> px \<ge> int (length (grid ! nat py)) then Inr None
      else Inr (grid ! nat py ! nat px))"

subsection \<open>Terrain generation\<close>

text \<open>A frontier entry \<^verbatim>\<open>{ x, y, type, chain }\<close> is the tuple \<open>(x, y, type, chain)\<close>.\<close>

type_synonym cellRec = "int \<times> int \<times> TerrainKind \<times> int"

text \<open>
  The state of the generation loop: the draws made, \<^verbatim>\<open>grid\<close>, \<^verbatim>\<open>chainGrid\<close> and
  \<^verbatim>\<open>frontier\<close>.
\<close>

type_synonym genState = "nat \<times> grid \<times> int list list \<times> cellRec list"

definition directions0 :: "(int \<times> int) list" where
  "directions0 = [(-1, -1), (0, -1), (1, -1), (-1, 0), (1, 0), (-1, 1), (0, 1), (1, 1)]"

text \<open>\<^verbatim>\<open>g[y][x] = v\<close> and \<^verbatim>\<open>g[y][x]\<close>, for \<open>x\<close> and \<open>y\<close> that passed the bounds check.\<close>

definition setCell :: "'a list list \<Rightarrow> int \<Rightarrow> int \<Rightarrow> 'a \<Rightarrow> 'a list list" where
  "setCell g px py v = g[nat py := (g ! nat py)[nat px := v]]"

definition cellOf :: "'a list list \<Rightarrow> int \<Rightarrow> int \<Rightarrow> 'a" where
  "cellOf g px py = g ! nat py ! nat px"

text \<open>
  The shuffle of \<^verbatim>\<open>directions\<close>, \<^verbatim>\<open>for (let i = directions.length - 1; i > 0; i--)\<close>:
  the second argument counts the draws, the third is \<open>i\<close>.
\<close>

fun shuffle :: "rng \<Rightarrow> nat \<Rightarrow> nat \<Rightarrow> (int \<times> int) list \<Rightarrow> (int \<times> int) list \<times> nat" where
  "shuffle rnd k 0 directions = (directions, k)"
| "shuffle rnd k (Suc i) directions =
     (let r = nat (randInt rnd k (int (Suc i) + 1))
      in shuffle rnd (k + 1) i (directions[Suc i := directions ! r, r := directions ! Suc i]))"

text \<open>
  The body of \<^verbatim>\<open>for (const { dx, dy } of directions)\<close>, for the entry
  \<^verbatim>\<open>current = { x, y, type, chain }\<close>. The grid has \<open>gs\<close> rows of \<open>gs\<close> cells (\<open>gs\<close> is
  \<^verbatim>\<open>gridSize\<close>), so a coordinate that passes the bounds check is read inside the arrays.
  In \<^verbatim>\<open>Math.max(100 - (chain - 1) * 0.5, 0) / 100\<close> the difference, the product and the
  maximum are exact in doubles for the chain values below \<open>2^53\<close>; the quotient is
  rounded.
\<close>

fun expandDir :: "int \<Rightarrow> rng \<Rightarrow> cellRec \<Rightarrow> genState \<Rightarrow> int \<times> int \<Rightarrow> genState" where
  "expandDir gs rnd (px, py, type, chain) (k, grid, chainGrid, frontier) (dx, dy) =
     (let nx = px + dx; ny = py + dy in
      if nx < 0 \<or> nx \<ge> gs \<or> ny < 0 \<or> ny \<ge> gs then (k, grid, chainGrid, frontier)
      else if cellOf grid nx ny \<noteq> None then (k, grid, chainGrid, frontier)
      else
       (let (newType, newChain, k') =
          (if type = Soil then
             (let probability = toDouble (max (100 - (of_int chain - 1) * (1 / 2)) 0 / 100)
              in if Math_random rnd k < probability then (Soil, chain + 1, k + 1)
                 else (Sand, 1, k + 1))
           else if type = Sand then
             (let probability = toDouble (max (100 - (of_int chain - 1) * 5) 0 / 100)
              in if Math_random rnd k < probability then (Sand, chain + 1, k + 1)
                 else (Water, 1, k + 1))
           else (Water, chain + 1, k))
        in (k', setCell grid nx ny (Some newType), setCell chainGrid nx ny newChain,
            frontier @ [(nx, ny, newType, newChain)])))"

text \<open>
  \<^verbatim>\<open>while (frontier.length > 0)\<close>. Nothing in the loop bounds the number of its
  iterations, so the loop is a partial function: \<open>None\<close> is a run that never ends.
\<close>

partial_function (option) generateGrid_loop ::
  "int \<Rightarrow> rng \<Rightarrow> (int \<times> int) list \<Rightarrow> nat \<Rightarrow> grid \<Rightarrow> int list list \<Rightarrow> cellRec list
     \<Rightarrow> (grid \<times> nat) option" where
  "generateGrid_loop gs rnd directions k grid chainGrid frontier =
     (if length frontier > 0 then
        (let randomIndex = nat (randInt rnd k (int (length frontier)));
             current = frontier ! randomIndex;
             frontier1 = splice1 randomIndex frontier
         in case shuffle rnd (k + 1) (length directions - 1) directions of
              (directions', k1) \<Rightarrow>
                (case foldl (expandDir gs rnd current) (k1, grid, chainGrid, frontier1)
                        directions' of
                   (k2, grid', chainGrid', frontier') \<Rightarrow>
                     generateGrid_loop gs rnd directions' k2 grid' chainGrid' frontier'))
      else Some (grid, k))"

text \<open>
  \<^verbatim>\<open>generateGrid\<close> for a grid of \<open>gs\<close> rows and columns. For \<open>gs < 1\<close> the array of
  rows is empty and \<^verbatim>\<open>grid[startY][startX] = "soil"\<close> throws.
\<close>

definition generateGrid_size :: "int \<Rightarrow> rng \<Rightarrow> nat \<Rightarrow> (error + grid \<times> nat) option" where
  "generateGrid_size gs rnd k =
     (if gs < 1 then Some (Inl TypeError)
      else
       (let grid0 = replicate (nat gs) (replicate (nat gs) None);
            chainGrid0 = replicate (nat gs) (replicate (nat gs) 0);
            startX = gs div 2;
            startY = gs div 2;
            grid1 = setCell grid0 startX startY (Some Soil);
            chainGrid1 = setCell chainGrid0 startX startY 1;
            frontier = [(startX, startY, Soil, 1)]
        in map_option Inr (generateGrid_loop gs rnd directions0 k grid1 chainGrid1 frontier)))"

text \<open>\<^verbatim>\<open>generateGrid()\<close>, with the constant \<^verbatim>\<open>gridSize\<close>.\<close>

definition generateGrid :: "rng \<Rightarrow> nat \<Rightarrow> (error + grid \<times> nat) option" where
  "generateGrid rnd k = generateGrid_size gridSize rnd k"

subsection \<open>Seeding\<close>

text \<open>
  The loop of \<^verbatim>\<open>generateFood\<close>; it returns the array, the attempts made and the
  number of draws.
\<close>

function generateFood_loop ::
  "rng \<Rightarrow> grid \<Rightarrow> nat \<Rightarrow> food_item list \<Rightarrow> nat \<Rightarrow> error + (food_item list \<times> nat \<times> nat)" where
  "generateFood_loop rnd grid k foodArr attempts =
     (if length foodArr < initialFoodCount \<and> attempts < 10000 then
        (let px = randInt rnd k gridSize;
             py = randInt rnd (k + 1) gridSize
         in case readCell grid px py of
              Inl e \<Rightarrow> Inl e
            | Inr c \<Rightarrow>
                generateFood_loop rnd grid (k + 2)
                  (if c = Some Soil \<and> \<not> list_ex (atPos px py) foodArr
                   then foodArr @ [(px, py)] else foodArr)
                  (attempts + 1))
      else Inr (foodArr, attempts, k))"
  by pat_completeness auto
termination
  by (relation "measure (\<lambda>(rnd, grid, k, foodArr, attempts). 10000 - attempts)") auto

definition generateFood :: "rng \<Rightarrow> nat \<Rightarrow> grid \<Rightarrow> error + (food_item list \<times> nat)" where
  "generateFood rnd k grid =
     (case generateFood_loop rnd grid k [] 0 of
        Inl e \<Rightarrow> Inl e
      | Inr (foodArr, attempts, k') \<Rightarrow> Inr (foodArr, k'))"

text \<open>
  The loop of \<^verbatim>\<open>generateBlobs\<close>. The objects it pushes are \<^verbatim>\<open>{ x, y }\<close>: they
  have no \<^verbatim>\<open>stepsSinceMeal\<close> property, so reading it gives \<^verbatim>\<open>undefined\<close>.
\<close>

function generateBlobs_loop ::
  "rng \<Rightarrow> grid \<Rightarrow> nat \<Rightarrow> blob list \<Rightarrow> nat \<Rightarrow> error + (blob list \<times> nat \<times> nat)" where
  "generateBlobs_loop rnd grid k blobArr attempts =
     (if length blobArr < initialBlobCount \<and> attempts < 10000 then
        (let px = randInt rnd k gridSize;
             py = randInt rnd (k + 1) gridSize
         in case readCell grid px py of
              Inl e \<Rightarrow> Inl e
            | Inr c \<Rightarrow>
                generateBlobs_loop rnd grid (k + 2)
                  (if c = Some Soil \<and> \<not> list_ex (\<lambda>f. blob_x f = px \<and> blob_y f = py) blobArr
                   then blobArr @ [\<lparr>blob_x = px, blob_y = py, stepsSinceMeal = Undefined\<rparr>]
                   else blobArr)
                  (attempts + 1))
      else Inr (blobArr, attempts, k))"
  by pat_completeness auto
termination
  by (relation "measure (\<lambda>(rnd, grid, k, blobArr, attempts). 10000 - attempts)") auto

definition generateBlobs :: "rng \<Rightarrow> nat \<Rightarrow> grid \<Rightarrow> error + (blob list \<times> nat)" where
  "generateBlobs rnd k grid =
     (case generateBlobs_loop rnd grid k [] 0 of
        Inl e \<Rightarrow> Inl e
      | Inr (blobArr, attempts, k') \<Rightarrow> Inr (blobArr, k'))"

text \<open>
  The initial simulation state,
  \<^verbatim>\<open>useState({ food: generateFood(grid), blobs: generateBlobs(grid) })\<close>.
\<close>

definition initialState :: "rng \<Rightarrow> nat \<Rightarrow> grid \<Rightarrow> error + (simState \<times> nat)" where
  "initialState rnd k grid =
     (case generateFood rnd k grid of
        Inl e \<Rightarrow> Inl e
      | Inr (foodArr, k1) \<Rightarrow>
         (case generateBlobs rnd k1 grid of
            Inl e \<Rightarrow> Inl e
          | Inr (blobArr, k2) \<Rightarrow> Inr (\<lparr>food = foodArr, blobs = blobArr\<rparr>, k2)))"

subsection \<open>Notions used in the statements\<close>

text \<open>A coordinate inside the \<open>gridSize \<times> gridSize\<close> grid.\<close>

definition inGrid :: "int \<Rightarrow> int \<Rightarrow> bool" where
  "inGrid px py = (0 \<le> px \<and> px < gridSize \<and> 0 \<le> py \<and> py < gridSize)"

definition blobPos :: "blob \<Rightarrow> food_item" where
  "blobPos b = (blob_x b, blob_y b)"

definition blobInGrid :: "blob \<Rightarrow> bool" where
  "blobInGrid b = inGrid (blob_x b) (blob_y b)"

text \<open>One tick's change of position: at most one cell in each axis.\<close>

definition oneStep :: "blob \<Rightarrow> blob \<Rightarrow> bool" where
  "oneStep b b' = (\<bar>blob_x b' - blob_x b\<bar> \<le> 1 \<and> \<bar>blob_y b' - blob_y b\<bar> \<le> 1)"

text \<open>The object \<^verbatim>\<open>{ x, y }\<close> that \<^verbatim>\<open>generateBlobs\<close> pushes, read as a blob.\<close>

definition seedBlob :: "food_item \<Rightarrow> blob" where
  "seedBlob p = \<lparr>blob_x = fst p, blob_y = snd p, stepsSinceMeal = Undefined\<rparr>"

text \<open>The blobs whose counter is \<open>0\<close>: the ones that ate last.\<close>

definition fed :: "blob list \<Rightarrow> blob list" where
  "fed bs = filter (\<lambda>b. stepsSinceMeal b = Num 0) bs"

text \<open>A coordinate of the grid that reads as soil.\<close>

definition onSoil :: "grid \<Rightarrow> food_item \<Rightarrow> bool" where
  "onSoil grid p = (inGrid (fst p) (snd p) \<and> readCell grid (fst p) (snd p) = Inr (Some Soil))"

text \<open>
  What a seeding call must return for a requested count, given the draws it made
  (\<open>2\<close> for each attempt, \<open>10000\<close> attempts at most).
\<close>

definition seeded :: "grid \<Rightarrow> nat \<Rightarrow> food_item list \<Rightarrow> nat \<Rightarrow> bool" where
  "seeded grid wanted ps draws =
     (list_all (onSoil grid) ps \<and> distinct ps \<and> length ps \<le> wanted \<and>
      (length ps = wanted \<or> draws = 2 * 10000))"

text \<open>
  The cell an attempt of a seeding loop draws: the attempt that starts at draw \<open>j\<close>
  takes \<open>x\<close> from draw \<open>j\<close> and \<open>y\<close> from draw \<open>j + 1\<close>.
\<close>

definition drawnCell :: "rng \<Rightarrow> nat \<Rightarrow> food_item" where
  "drawnCell rnd j = (randInt rnd j gridSize, randInt rnd (j + 1) gridSize)"

text \<open>
  The soil cells drawn by the attempts made from draw \<open>k\<close> up to draw \<open>k'\<close>: attempt
  \<open>i\<close> starts at draw \<open>k + 2 * i\<close>.
\<close>

definition accepted :: "rng \<Rightarrow> nat \<Rightarrow> nat \<Rightarrow> grid \<Rightarrow> food_item set" where
  "accepted rnd k k' grid =
     {p. \<exists>i. k + 2 * i < k' \<and> p = drawnCell rnd (k + 2 * i) \<and> onSoil grid p}"

text \<open>
  How the output of a seeding call that started at draw \<open>k\<close> and ended at draw \<open>k'\<close>
  depends on the draws: whole attempts were made, \<open>10000\<close> at most; the output holds
  exactly the soil cells those attempts drew; and each attempt was made while fewer
  than the requested count of cells had been drawn.
\<close>

definition sampled :: "rng \<Rightarrow> nat \<Rightarrow> nat \<Rightarrow> grid \<Rightarrow> nat \<Rightarrow> food_item list \<Rightarrow> bool" where
  "sampled rnd k k' grid wanted ps =
     (k \<le> k' \<and> even (k' - k) \<and> k' - k \<le> 2 * 10000 \<and>
      set ps = accepted rnd k k' grid \<and>
      (\<forall>i. k + 2 * i < k' \<longrightarrow> card (accepted rnd k (k + 2 * i) grid) < wanted))"

text \<open>A coordinate inside a grid of \<open>gs\<close> rows and columns; a grid of that shape.\<close>

definition inside :: "int \<Rightarrow> int \<Rightarrow> int \<Rightarrow> bool" where
  "inside gs px py = (0 \<le> px \<and> px < gs \<and> 0 \<le> py \<and> py < gs)"

definition wfGrid :: "int \<Rightarrow> 'a list list \<Rightarrow> bool" where
  "wfGrid gs g = (length g = nat gs \<and> (\<forall>row\<in>set g. length row = nat gs))"

text \<open>An assigned cell; the cells still to assign; the coordinates of the frontier.\<close>

definition assigned :: "grid \<Rightarrow> int \<Rightarrow> int \<Rightarrow> bool" where
  "assigned g px py = (cellOf g px py \<noteq> None)"

definition unassigned :: "int \<Rightarrow> grid \<Rightarrow> (int \<times> int) set" where
  "unassigned gs g = {(px, py). inside gs px py \<and> \<not> assigned g px py}"

definition positions :: "cellRec list \<Rightarrow> (int \<times> int) set" where
  "positions frontier = (\<lambda>e. (fst e, fst (snd e))) ` set frontier"

text \<open>How one loop iteration's expansion changes the grid and the frontier.\<close>

definition grows :: "int \<Rightarrow> grid \<Rightarrow> cellRec list \<Rightarrow> grid \<Rightarrow> cellRec list \<Rightarrow> bool" where
  "grows gs g fr g' fr' =
     (wfGrid gs g' \<and>
      (\<forall>px py. inside gs px py \<and> assigned g px py \<longrightarrow> assigned g' px py) \<and>
      (\<exists>new. fr' = fr @ new \<and>
         (\<forall>px py. inside gs px py \<and> assigned g' px py \<and> \<not> assigned g px py
             \<longrightarrow> (px, py) \<in> positions new) \<and>
         card (unassigned gs g') + length new = card (unassigned gs g)))"

text \<open>
  The invariant of the generation loop: an assigned cell that is not waiting in the
  frontier has all its neighbours inside the grid assigned.
\<close>

definition closed :: "int \<Rightarrow> grid \<Rightarrow> cellRec list \<Rightarrow> bool" where
  "closed gs g fr =
     (\<forall>px py. inside gs px py \<and> assigned g px py \<and> (px, py) \<notin> positions fr \<longrightarrow>
        (\<forall>d\<in>set directions0. inside gs (px + fst d) (py + snd d) \<longrightarrow>
           assigned g (px + fst d) (py + snd d)))"

text \<open>A result of the generation that is a grid with every cell assigned a terrain kind.\<close>

definition covers :: "int \<Rightarrow> (error + grid \<times> nat) option \<Rightarrow> bool" where
  "covers gs r =
     (\<exists>g k'. r = Some (Inr (g, k')) \<and> length g = nat gs \<and>
        (\<forall>row\<in>set g. length row = nat gs \<and>
           (\<forall>c\<in>set row. c \<in> {Some Soil, Some Sand, Some Water})))"

text \<open>
  The generation branch below a frontier entry: the entry itself, and every entry pushed
  while a member of the branch is expanded, in any state of the loop.
\<close>

inductive descendant :: "int \<Rightarrow> rng \<Rightarrow> cellRec \<Rightarrow> cellRec \<Rightarrow> bool" for gs rnd where
  itself: "descendant gs rnd e e"
| child: "descendant gs rnd e e1 \<Longrightarrow>
    expandDir gs rnd e1 (k, g, cg, fr) d = (k', g', cg', fr @ [e2]) \<Longrightarrow>
    descendant gs rnd e e2"

text \<open>Grids for concrete runs: all soil, all water.\<close>

definition soilGrid :: grid where
  "soilGrid = replicate 100 (replicate 100 (Some Soil))"

definition waterGrid :: grid where
  "waterGrid = replicate 100 (replicate 100 (Some Water))"

text \<open>A random source whose every draw is \<open>0\<close>, for concrete runs.\<close>

definition zeroDraws :: rng where
  "zeroDraws = (\<lambda>k. Abs_draw 0)"

text \<open>A random source whose first 20000 draws are \<open>0\<close> and whose later draws are \<open>1/2\<close>.\<close>

definition lateHalfDraws :: rng where
  "lateHalfDraws = (\<lambda>k. if k < 20000 then Abs_draw 0 else Abs_draw (1 / 2))"

text \<open>
  A random source whose every draw is the double nearest to \<open>0.95\<close>, and one whose first
  draw is \<open>0\<close> and whose later draws are the double nearest to \<open>0.995\<close>.
\<close>

definition sand095Draws :: rng where
  "sand095Draws = (\<lambda>k. Abs_draw (8556839292003942 / 9007199254740992))"

definition edgeDraws :: rng where
  "edgeDraws = (\<lambda>k. if k = 0 then Abs_draw 0 else Abs_draw (8962163258467287 / 9007199254740992))"

text \<open>
  A random source that scans the grid: attempt \<open>i\<close> of a seeding loop started at draw
  \<open>0\<close> draws \<open>(i mod 16) / 16\<close> for \<open>x\<close> and \<open>(i div 16 mod 16) / 16\<close> for \<open>y\<close>.
\<close>

definition scanDraws :: rng where
  "scanDraws = (\<lambda>j. if even j then Abs_draw (of_nat ((j div 2) mod 16) / 16)
                     else Abs_draw (of_nat ((j div 2) div 16 mod 16) / 16))"

section \<open>Properties of the rounding\<close>

lemma roundEven_close: "\<bar>of_int (roundEven y) - y\<bar> \<le> 1 / 2"
proof -
  define n where "n = \<lfloor>y\<rfloor>"
  define r where "r = y - of_int n"
  have r: "0 \<le> r" "r < 1" unfolding r_def n_def by linarith+
  have y: "y = of_int n + r" by (simp add: r_def)
  have "roundEven y = n \<and> r \<le> 1 / 2 \<or> roundEven y = n + 1 \<and> 1 / 2 \<le> r"
    unfolding roundEven_def Let_def n_def [symmetric] r_def [symmetric] by auto
  then show ?thesis
  proof
    assume "roundEven y = n \<and> r \<le> 1 / 2"
    with r show ?thesis unfolding y by simp
  next
    assume "roundEven y = n + 1 \<and> 1 / 2 \<le> r"
    with r show ?thesis unfolding y by simp
  qed
qed

lemma roundEven_mono_bounds:
  assumes "of_int a \<le> y" "y \<le> of_int b"
  shows "a \<le> roundEven y \<and> roundEven y \<le> b"
proof -
  from assms have "a \<le> \<lfloor>y\<rfloor>" by (simp add: le_floor_iff)
  moreover have "\<lfloor>y\<rfloor> \<le> b" using assms(2) by (simp add: floor_le_iff)
  moreover have "\<lfloor>y\<rfloor> + 1 \<le> b" if "y \<noteq> of_int \<lfloor>y\<rfloor>"
  proof -
    from that have "of_int \<lfloor>y\<rfloor> < y" using of_int_floor_le [of y] by linarith
    with assms(2) have "of_int \<lfloor>y\<rfloor> < (of_int b :: rat)" by linarith
    then show ?thesis by simp
  qed
  ultimately show ?thesis
    by (auto simp: roundEven_def Let_def)
qed

lemma binExp_bounds:
  assumes "0 < x"
  shows "\<exists>e. binExp x = max e (- 1022) \<and> 2 powi e \<le> x \<and> x < 2 powi (e + 1)"
proof -
  obtain p q where pq: "quotient_of x = (p, q)" by (cases "quotient_of x")
  then have q: "0 < q" and x: "x = of_int p / of_int q"
    using quotient_of_denom_pos quotient_of_div by blast+
  with assms have p: "0 < p" by (simp add: zero_less_divide_iff)
  define d where "d = bitlen p - bitlen q"
  from bitlen_bounds [OF p] have bp: "2 ^ nat (bitlen p - 1) \<le> p" "p < 2 ^ nat (bitlen p)" by auto
  from bitlen_bounds [OF q] have bq: "2 ^ nat (bitlen q - 1) \<le> q" "q < 2 ^ nat (bitlen q)" by auto
  have p1: "1 \<le> bitlen p" and q1: "1 \<le> bitlen q"
    using p q by (auto simp: bitlen_alt_def)
  have P: "(2::rat) powi (bitlen p - 1) \<le> of_int p" "of_int p < (2::rat) powi (bitlen p)"
  proof -
    have "(2::rat) ^ nat (bitlen p - 1) \<le> of_int p"
      using bp(1) by (metis of_int_le_iff of_int_numeral of_int_power)
    then show "(2::rat) powi (bitlen p - 1) \<le> of_int p"
      using p1 by (simp add: power_int_def)
    have "of_int p < (2::rat) ^ nat (bitlen p)"
      using bp(2) by (metis of_int_less_iff of_int_numeral of_int_power)
    then show "of_int p < (2::rat) powi (bitlen p)"
      using p1 by (simp add: power_int_def)
  qed
  have Q: "(2::rat) powi (bitlen q - 1) \<le> of_int q" "of_int q < (2::rat) powi (bitlen q)"
  proof -
    have "(2::rat) ^ nat (bitlen q - 1) \<le> of_int q"
      using bq(1) by (metis of_int_le_iff of_int_numeral of_int_power)
    then show "(2::rat) powi (bitlen q - 1) \<le> of_int q"
      using q1 by (simp add: power_int_def)
    have "of_int q < (2::rat) ^ nat (bitlen q)"
      using bq(2) by (metis of_int_less_iff of_int_numeral of_int_power)
    then show "of_int q < (2::rat) powi (bitlen q)"
      using q1 by (simp add: power_int_def)
  qed
  have qpos: "(0::rat) < of_int q" using q by simp
  have upper: "x < 2 powi (d + 1)"
  proof -
    have "of_int p < (2::rat) powi (d + 1) * 2 powi (bitlen q - 1)"
      using P(2) by (simp add: d_def power_int_add [symmetric])
    also have "\<dots> \<le> 2 powi (d + 1) * of_int q"
      using Q(1) by (simp add: mult_left_mono)
    finally show ?thesis using qpos by (simp add: x pos_divide_less_eq)
  qed
  have lower: "2 powi (d - 1) \<le> x"
  proof -
    have "(2::rat) powi (d - 1) * of_int q \<le> 2 powi (d - 1) * 2 powi (bitlen q)"
      using Q(2) by (simp add: mult_left_mono)
    also have "\<dots> = 2 powi (bitlen p - 1)"
      by (simp add: d_def power_int_add [symmetric])
    also have "\<dots> \<le> of_int p" by (rule P(1))
    finally show ?thesis using qpos by (simp add: x pos_le_divide_eq)
  qed
  define e where "e = (if 2 powi d \<le> x then d else d - 1)"
  have "2 powi e \<le> x \<and> x < 2 powi (e + 1)"
    using upper lower by (auto simp: e_def)
  moreover have "binExp x = max e (- 1022)"
    by (simp add: binExp_def pq d_def e_def Let_def)
  ultimately show ?thesis by blast
qed

lemma powi_less_imp_less:
  assumes "(2::rat) powi a < 2 powi b"
  shows "a < b"
proof (rule ccontr)
  assume "\<not> a < b"
  then have "(2::rat) powi b \<le> 2 powi a"
    by (intro power_int_increasing) simp_all
  with assms show False by simp
qed

lemma toDouble_nearest:
  assumes "2 powi (- 1022) \<le> x"
  shows "\<exists>m e. toDouble x = of_int m * 2 powi (e - 52) \<and> 2 ^ 52 \<le> m \<and> m \<le> 2 ^ 53 \<and>
    2 powi e \<le> x \<and> x < 2 powi (e + 1) \<and> \<bar>toDouble x - x\<bar> \<le> 2 powi (e - 53)"
proof -
  have pos: "0 < x"
    by (rule less_le_trans [OF _ assms]) simp
  from binExp_bounds [OF pos] obtain e where
    e: "binExp x = max e (- 1022)" "2 powi e \<le> x" "x < 2 powi (e + 1)" by blast
  have "(2::rat) powi (- 1022) < 2 powi (e + 1)"
    using assms e(3) by (rule le_less_trans)
  then have "- 1022 < e + 1" by (rule powi_less_imp_less)
  with e(1) have be: "binExp x = e" by simp
  define u :: rat where "u = 2 powi (e - 52)"
  have u: "0 < u" by (simp add: u_def)
  define m where "m = roundEven (x / u)"
  have td: "toDouble x = of_int m * u"
    using pos by (simp add: toDouble_def Let_def be u_def m_def)
  have lo: "of_int (2 ^ 52) \<le> x / u"
  proof -
    have "(2::rat) ^ 52 * u = 2 powi e"
      unfolding u_def by (simp add: power_int_diff)
    with e(2) u show ?thesis by (simp add: pos_le_divide_eq)
  qed
  have hi: "x / u \<le> of_int (2 ^ 53)"
  proof -
    have "(2::rat) ^ 53 * u = 2 powi (e + 1)"
      unfolding u_def by (simp add: power_int_diff power_int_add)
    with e(3) u show ?thesis by (simp add: pos_divide_le_eq)
  qed
  from roundEven_mono_bounds [OF lo hi] have mb: "2 ^ 52 \<le> m" "m \<le> 2 ^ 53"
    by (simp_all add: m_def)
  have "\<bar>toDouble x - x\<bar> = \<bar>of_int m - x / u\<bar> * u"
  proof -
    have "toDouble x - x = (of_int m - x / u) * u"
      using u by (simp add: td field_simps)
    then show ?thesis using u by (simp add: abs_mult)
  qed
  also have "\<dots> \<le> (1 / 2) * u"
    using roundEven_close [of "x / u"] u unfolding m_def by (intro mult_right_mono) simp_all
  also have "\<dots> = 2 powi (e - 53)"
    unfolding u_def by (simp add: power_int_diff)
  finally have "\<bar>toDouble x - x\<bar> \<le> 2 powi (e - 53)" .
  with td mb e(2,3) show ?thesis unfolding u_def by blast
qed

lemma toDouble_unit_error:
  assumes "0 \<le> x" "x \<le> 1" "x = 0 \<or> 2 powi (- 1022) \<le> x"
  shows "\<bar>toDouble x - x\<bar> \<le> 1 / 2 ^ 54"
proof (cases "x = 0")
  case True
  then show ?thesis by (simp add: toDouble_def)
next
  case False
  with assms(3) have "2 powi (- 1022) \<le> x" by simp
  from toDouble_nearest [OF this] obtain m e where
    me: "2 powi e \<le> x" "x < 2 powi (e + 1)" "\<bar>toDouble x - x\<bar> \<le> 2 powi (e - 53)"
    by blast
  show ?thesis
  proof (cases "x = 1")
    case True
    have "toDouble 1 = 1" by code_simp
    with True show ?thesis by simp
  next
    case False
    with assms(2) have "x < 1" by simp
    with me(1) have "(2::rat) powi e < 2 powi 0" by simp
    then have "e < 0" by (rule powi_less_imp_less)
    then have "(2::rat) powi (e - 53) \<le> 2 powi (- 54)"
      by (intro power_int_increasing) simp_all
    also have "\<dots> = 1 / 2 ^ 54" by (simp add: power_int_minus field_simps)
    finally show ?thesis using me(3) by simp
  qed
qed

lemma toDouble_one: "toDouble 1 = 1"
  by code_simp

lemma toDouble_soil_2: "toDouble (199 / 200) = 8962163258467287 / 9007199254740992"
  by code_simp

lemma toDouble_sand_2: "toDouble (19 / 20) = 8556839292003942 / 9007199254740992"
  by code_simp

lemma toDouble_nonneg:
  assumes "0 \<le> x"
  shows "0 \<le> toDouble x"
proof (cases "x = 0")
  case True
  then show ?thesis by (simp add: toDouble_def)
next
  case False
  with assms have pos: "0 < x" by simp
  define u :: rat where "u = 2 powi (binExp x - 52)"
  have u: "0 < u" by (simp add: u_def)
  have "of_int 0 \<le> x / u" using pos u by simp
  moreover have "x / u \<le> of_int \<lceil>x / u\<rceil>" by (rule le_of_int_ceiling)
  ultimately have "0 \<le> roundEven (x / u)"
    using roundEven_mono_bounds [of 0 "x / u" "\<lceil>x / u\<rceil>"] by simp
  then have "0 \<le> of_int (roundEven (x / u)) * u" using u by simp
  then show ?thesis using pos by (simp add: toDouble_def Let_def u_def)
qed

lemma toDouble_tiny:
  assumes "0 < x" "x < 2 powi (- 1022)"
  shows "toDouble x \<le> 2 powi (- 1022)"
proof -
  from binExp_bounds [OF assms(1)] obtain e where
    e: "binExp x = max e (- 1022)" "2 powi e \<le> x" by blast
  from e(2) assms(2) have "(2::rat) powi e < 2 powi (- 1022)" by (rule le_less_trans)
  then have "e < - 1022" by (rule powi_less_imp_less)
  with e(1) have be: "binExp x = - 1022" by simp
  define u :: rat where "u = 2 powi (- 1074)"
  have u: "0 < u" by (simp add: u_def)
  have td: "toDouble x = of_int (roundEven (x / u)) * u"
    using assms(1) by (simp add: toDouble_def Let_def be u_def)
  have p: "(2::rat) ^ 52 * u = 2 powi (- 1022)"
  proof -
    have "(2::rat) powi (52 + (- 1074)) = 2 powi 52 * 2 powi (- 1074)"
      by (rule power_int_add) simp
    moreover have "(2::rat) powi 52 = 2 ^ 52" by simp
    ultimately show ?thesis unfolding u_def by simp
  qed
  have "of_int 0 \<le> x / u" using assms(1) u by simp
  moreover have "x / u \<le> of_int (2 ^ 52)"
    using assms(2) u p by (simp add: pos_divide_le_eq)
  ultimately have "roundEven (x / u) \<le> 2 ^ 52"
    using roundEven_mono_bounds [of 0 "x / u" "2 ^ 52"] by simp
  then have "(of_int (roundEven (x / u)) :: rat) \<le> 2 ^ 52"
    by (metis of_int_le_iff of_int_numeral of_int_power)
  then have "of_int (roundEven (x / u)) * u \<le> 2 ^ 52 * u"
    using u by (intro mult_right_mono) simp_all
  then show ?thesis unfolding td p .
qed

text \<open>
  The product of a double below \<open>1\<close> and a positive integer \<open>n\<close> rounds to a double
  below \<open>n\<close>.
\<close>

lemma toDouble_scaled_less:
  assumes "0 \<le> r" "r \<le> 1 - 1 / 2 ^ 53" "1 \<le> n"
  shows "toDouble (r * of_int n) < of_int n"
proof -
  define x where "x = r * rat_of_int n"
  have n: "(1::rat) \<le> of_int n" using assms(3) by simp
  have x0: "0 \<le> x" using assms(1) n by (simp add: x_def)
  have xn: "x \<le> (1 - 1 / 2 ^ 53) * of_int n"
    unfolding x_def using assms(2) n by (intro mult_right_mono) simp_all
  consider "x = 0" | "0 < x" "x < 2 powi (- 1022)" | "2 powi (- 1022) \<le> x"
    using x0 by fastforce
  then have "toDouble x < of_int n"
  proof cases
    case 1
    with n show ?thesis by (simp add: toDouble_def)
  next
    case 2
    from toDouble_tiny [OF 2] have "toDouble x \<le> 2 powi (- 1022)" .
    also have "(2::rat) powi (- 1022) < 2 powi 0"
      by (intro power_int_strict_increasing) simp_all
    also have "(2::rat) powi 0 \<le> of_int n" using n by simp
    finally show ?thesis .
  next
    case 3
    from toDouble_nearest [OF 3] obtain m e where
      me: "2 powi e \<le> x" "\<bar>toDouble x - x\<bar> \<le> 2 powi (e - 53)"
      by blast
    have "(2::rat) powi (e - 53) = 2 powi e / 2 ^ 53"
      by (simp add: power_int_diff)
    also have "\<dots> \<le> x / 2 ^ 53"
      using me(1) by (simp add: divide_right_mono)
    finally have "\<bar>toDouble x - x\<bar> \<le> x / 2 ^ 53"
      using me(2) by simp
    then have "toDouble x - x \<le> x / 2 ^ 53"
      by (simp only: abs_le_iff)
    then have "toDouble x \<le> x + x / 2 ^ 53" by linarith
    also have "\<dots> = x * (1 + 1 / 2 ^ 53)" by (simp add: algebra_simps)
    finally have "toDouble x \<le> x * (1 + 1 / 2 ^ 53)" .
    also have "\<dots> \<le> ((1 - 1 / 2 ^ 53) * of_int n) * (1 + 1 / 2 ^ 53)"
      using xn by (intro mult_right_mono) simp_all
    also have "\<dots> = of_int n * ((1 - 1 / 2 ^ 53) * (1 + 1 / 2 ^ 53))"
      by (simp only: mult.commute mult.left_commute)
    also have "\<dots> < of_int n * 1"
      using n by (intro mult_strict_left_mono) simp_all
    finally show ?thesis by simp
  qed
  then show ?thesis unfolding x_def .
qed

lemma toDouble_fifty: "toDouble 50 = 50"
  by code_simp

lemma toDouble_four: "toDouble 4 = 4"
  by code_simp

lemma toDouble_quarters:
  "\<forall>a\<in>set [0..<16]. toDouble (25 * rat_of_nat a / 4) = 25 * rat_of_nat a / 4"
  by code_simp

section \<open>Properties of the random source\<close>

lemma Math_random_range: "0 \<le> Math_random rnd k \<and> Math_random rnd k \<le> 1 - 1 / 2 ^ 53"
  using Rep_draw [of "rnd k"] by (simp add: Math_random_def)

lemma randInt_range:
  assumes "0 < n"
  shows "0 \<le> randInt rnd k n \<and> randInt rnd k n < n"
proof -
  have r: "0 \<le> Math_random rnd k" "Math_random rnd k \<le> 1 - 1 / 2 ^ 53"
    using Math_random_range by auto
  from assms have n: "1 \<le> n" by simp
  have "0 \<le> Math_random rnd k * of_int n"
    using r(1) assms by simp
  then have "0 \<le> toDouble (Math_random rnd k * of_int n)"
    by (rule toDouble_nonneg)
  moreover have "toDouble (Math_random rnd k * of_int n) < of_int n"
    using r n by (rule toDouble_scaled_less)
  ultimately show ?thesis
    by (simp add: randInt_def floor_less_iff)
qed

lemma Math_random_zeroDraws: "Math_random zeroDraws k = 0"
  by (simp add: Math_random_def zeroDraws_def Abs_draw_inverse)

lemma randInt_zeroDraws: "randInt zeroDraws k n = 0"
  by (simp add: randInt_def Math_random_zeroDraws toDouble_def)

lemma Math_random_sand095Draws:
  "Math_random sand095Draws k = 8556839292003942 / 9007199254740992"
  by (simp add: Math_random_def sand095Draws_def Abs_draw_inverse)

lemma Math_random_edgeDraws:
  "Math_random edgeDraws k = (if k = 0 then 0 else 8962163258467287 / 9007199254740992)"
  by (simp add: Math_random_def edgeDraws_def Abs_draw_inverse)

lemma Math_random_lateHalfDraws:
  "Math_random lateHalfDraws k = (if k < 20000 then 0 else 1 / 2)"
  by (simp add: Math_random_def lateHalfDraws_def Abs_draw_inverse)

lemma randInt_lateHalfDraws:
  "randInt lateHalfDraws k 100 = (if k < 20000 then 0 else 50)"
  "randInt lateHalfDraws k 8 = (if k < 20000 then 0 else 4)"
  by (simp_all add: randInt_def Math_random_lateHalfDraws toDouble_fifty toDouble_four)
    (simp_all add: toDouble_def)

section \<open>Properties of the array operations\<close>

lemma findIndex_Some:
  "findIndex p xs = Some i \<Longrightarrow> i < length xs \<and> p (xs ! i) \<and> (\<forall>j<i. \<not> p (xs ! j))"
proof (induction xs arbitrary: i)
  case Nil
  then show ?case by simp
next
  case (Cons a as)
  show ?case
  proof (cases "p a")
    case True
    with Cons.prems show ?thesis by simp
  next
    case False
    with Cons.prems obtain i' where i': "findIndex p as = Some i'" "i = Suc i'"
      by auto
    from Cons.IH [OF i'(1)] False i'(2) show ?thesis
      by (auto simp: less_Suc_eq_0_disj)
  qed
qed

lemma findIndex_None: "findIndex p xs = None \<longleftrightarrow> (\<forall>a\<in>set xs. \<not> p a)"
  by (induction xs) auto

lemma findIndex_atPos_remove1:
  "findIndex (atPos px py) xs = Some i \<Longrightarrow> splice1 i xs = remove1 (px, py) xs"
proof (induction xs arbitrary: i)
  case Nil
  then show ?case by simp
next
  case (Cons a as)
  show ?case
  proof (cases "atPos px py a")
    case True
    then have "a = (px, py)" by (auto simp: atPos_def)
    with Cons.prems True show ?thesis by (simp add: splice1_def)
  next
    case False
    then have ne: "a \<noteq> (px, py)" by (auto simp: atPos_def)
    from False Cons.prems obtain i' where i': "findIndex (atPos px py) as = Some i'" "i = Suc i'"
      by auto
    from Cons.IH [OF i'(1)] ne i'(2) show ?thesis
      by (simp add: splice1_def)
  qed
qed

lemma findIndex_atPos_mem:
  "findIndex (atPos px py) xs = Some i \<Longrightarrow> (px, py) \<in> set xs"
  by (drule findIndex_Some) (auto simp: atPos_def prod_eq_iff in_set_conv_nth)

lemma findIndex_atPos_None:
  "findIndex (atPos px py) xs = None \<longleftrightarrow> (px, py) \<notin> set xs"
  by (auto simp: findIndex_None atPos_def)

section \<open>Properties of the tick\<close>

lemma neighbors_mem:
  "(dx, dy) \<in> set (neighbors px py) \<longleftrightarrow>
     dx \<in> {-1, 0, 1} \<and> dy \<in> {-1, 0, 1} \<and> (dx, dy) \<noteq> (0, 0) \<and> inGrid (px + dx) (py + dy)"
  unfolding neighbors_def inGrid_def
  apply (simp only: list.map concat.simps append_Nil2 set_append)
  apply (simp split: if_splits)
  apply (rule iffI)
   apply (elim disjE conjE; simp)
  apply (elim disjE conjE; simp)
  done

lemma neighbors_length: "length (neighbors px py) \<le> 8"
  by (simp add: neighbors_def)

lemma neighbors_nonempty:
  assumes "inGrid px py"
  shows "neighbors px py \<noteq> []"
proof -
  have "(1, 0) \<in> set (neighbors px py) \<or> (-1, 0) \<in> set (neighbors px py)"
    using assms unfolding neighbors_mem by (auto simp: inGrid_def gridSize_def)
  then show ?thesis by auto
qed

text \<open>The three ways a blob leaves the callback, and what each does to the food array.\<close>

lemma blobStep_eats_here:
  assumes "(blob_x b, blob_y b) \<in> set newFood"
  shows "blobStep rnd k newFood b =
    Inr (\<lparr>blob_x = blob_x b, blob_y = blob_y b, stepsSinceMeal = Num 0\<rparr>,
         remove1 (blob_x b, blob_y b) newFood, k)"
proof -
  from assms obtain i where i: "findIndex (atPos (blob_x b) (blob_y b)) newFood = Some i"
    using findIndex_atPos_None [of "blob_x b" "blob_y b" newFood] by (cases "findIndex (atPos (blob_x b) (blob_y b)) newFood") auto
  then show ?thesis
    by (simp add: blobStep_def Let_def findIndex_atPos_remove1)
qed

lemma blobStep_moves:
  assumes r: "blobStep rnd k newFood b = Inr (b', newFood', k')"
    and here: "(blob_x b, blob_y b) \<notin> set newFood"
  shows "k' = k + 1 \<and>
    (blob_x b' - blob_x b, blob_y b' - blob_y b) \<in> set (neighbors (blob_x b) (blob_y b)) \<and>
    (if (blob_x b', blob_y b') \<in> set newFood
     then stepsSinceMeal b' = Num 0 \<and> newFood' = remove1 (blob_x b', blob_y b') newFood
     else stepsSinceMeal b' = js_succ (stepsSinceMeal b) \<and> newFood' = newFood)"
proof -
  define nbs where "nbs = neighbors (blob_x b) (blob_y b)"
  define foodNeighbors where "foodNeighbors =
    filter (\<lambda>move. list_ex (atPos (blob_x b + fst move) (blob_y b + snd move)) newFood) nbs"
  define moves where "moves = (if length foodNeighbors > 0 then foodNeighbors else nbs)"
  define i where "i = randInt rnd k (int (length moves))"
  define nx where "nx = blob_x b + fst (moves ! nat i)"
  define ny where "ny = blob_y b + snd (moves ! nat i)"
  have none: "findIndex (atPos (blob_x b) (blob_y b)) newFood = None"
    using here by (simp add: findIndex_atPos_None)
  have unfolded: "blobStep rnd k newFood b =
    (if i < 0 \<or> i \<ge> int (length moves) then Inl TypeError
     else case findIndex (atPos nx ny) newFood of
        Some j \<Rightarrow> Inr (\<lparr>blob_x = nx, blob_y = ny, stepsSinceMeal = Num 0\<rparr>, splice1 j newFood, k + 1)
      | None \<Rightarrow> Inr (\<lparr>blob_x = nx, blob_y = ny, stepsSinceMeal = js_succ (stepsSinceMeal b)\<rparr>,
                     newFood, k + 1))"
    unfolding blobStep_def Let_def none nbs_def foodNeighbors_def moves_def i_def nx_def ny_def
    by simp
  from r unfolded have inrange: "0 \<le> i" "i < int (length moves)"
    by (auto split: if_splits)
  then have "moves ! nat i \<in> set moves" by simp
  moreover have "set moves \<subseteq> set nbs"
    by (auto simp: moves_def foodNeighbors_def)
  ultimately have mem: "(fst (moves ! nat i), snd (moves ! nat i)) \<in> set nbs" by auto
  show ?thesis
  proof (cases "findIndex (atPos nx ny) newFood")
    case None
    with r unfolded inrange have "b' = \<lparr>blob_x = nx, blob_y = ny, stepsSinceMeal = js_succ (stepsSinceMeal b)\<rparr>"
      "newFood' = newFood" "k' = k + 1"
      by auto
    moreover from None have "(nx, ny) \<notin> set newFood" by (simp add: findIndex_atPos_None)
    ultimately show ?thesis using mem by (simp add: nx_def ny_def nbs_def)
  next
    case (Some j)
    with r unfolded inrange have "b' = \<lparr>blob_x = nx, blob_y = ny, stepsSinceMeal = Num 0\<rparr>"
      "newFood' = splice1 j newFood" "k' = k + 1"
      by auto
    moreover from Some have "(nx, ny) \<in> set newFood" by (rule findIndex_atPos_mem)
    moreover from Some have "splice1 j newFood = remove1 (nx, ny) newFood"
      by (rule findIndex_atPos_remove1)
    ultimately show ?thesis using mem by (simp add: nx_def ny_def nbs_def)
  qed
qed

lemma blobStep_returns:
  assumes "inGrid (blob_x b) (blob_y b)"
  shows "\<exists>r. blobStep rnd k newFood b = Inr r"
proof (cases "(blob_x b, blob_y b) \<in> set newFood")
  case True
  then show ?thesis by (simp add: blobStep_eats_here)
next
  case False
  define nbs where "nbs = neighbors (blob_x b) (blob_y b)"
  define foodNeighbors where "foodNeighbors =
    filter (\<lambda>move. list_ex (atPos (blob_x b + fst move) (blob_y b + snd move)) newFood) nbs"
  define moves where "moves = (if length foodNeighbors > 0 then foodNeighbors else nbs)"
  have "nbs \<noteq> []" using assms by (simp add: nbs_def neighbors_nonempty)
  then have "0 < int (length moves)" by (simp add: moves_def)
  from randInt_range [OF this, of rnd k]
  have i: "0 \<le> randInt rnd k (int (length moves))" "randInt rnd k (int (length moves)) < int (length moves)"
    by auto
  have none: "findIndex (atPos (blob_x b) (blob_y b)) newFood = None"
    using False by (simp add: findIndex_atPos_None)
  show ?thesis
    using i unfolding blobStep_def Let_def none nbs_def foodNeighbors_def moves_def
    by (simp split: option.split)
qed

lemma blobStep_food:
  assumes r: "blobStep rnd k newFood b = Inr (b', newFood', k')"
  shows "(stepsSinceMeal b' = Num 0 \<and> blobPos b' \<in> set newFood \<and>
          newFood' = remove1 (blobPos b') newFood) \<or>
         (stepsSinceMeal b' = js_succ (stepsSinceMeal b) \<and> blobPos b' \<notin> set newFood \<and>
          newFood' = newFood)"
proof (cases "(blob_x b, blob_y b) \<in> set newFood")
  case True
  with r show ?thesis by (auto simp: blobStep_eats_here blobPos_def)
next
  case False
  from blobStep_moves [OF r False] show ?thesis
    by (auto simp: blobPos_def split: if_splits)
qed

lemma blobStep_oneStep:
  assumes r: "blobStep rnd k newFood b = Inr (b', newFood', k')"
  shows "oneStep b b' \<and> (blobInGrid b \<longrightarrow> blobInGrid b')"
proof (cases "(blob_x b, blob_y b) \<in> set newFood")
  case True
  with r show ?thesis by (auto simp: blobStep_eats_here oneStep_def blobInGrid_def)
next
  case False
  from blobStep_moves [OF r False]
  have "(blob_x b' - blob_x b, blob_y b' - blob_y b) \<in> set (neighbors (blob_x b) (blob_y b))"
    by simp
  then have "blob_x b' - blob_x b \<in> {-1, 0, 1}" "blob_y b' - blob_y b \<in> {-1, 0, 1}"
    "inGrid (blob_x b + (blob_x b' - blob_x b)) (blob_y b + (blob_y b' - blob_y b))"
    unfolding neighbors_mem by simp_all
  then show ?thesis
    by (auto simp: oneStep_def blobInGrid_def)
qed

lemma mapBlobs_append:
  "mapBlobs rnd k newFood (as @ bs) =
     (case mapBlobs rnd k newFood as of
        Inl e \<Rightarrow> Inl e
      | Inr (as', newFood', k') \<Rightarrow>
         (case mapBlobs rnd k' newFood' bs of
            Inl e \<Rightarrow> Inl e
          | Inr (bs', newFood'', k'') \<Rightarrow> Inr (as' @ bs', newFood'', k'')))"
  by (induction as arbitrary: k newFood) (auto split: sum.splits)

lemma mapBlobs_ConsE:
  assumes "mapBlobs rnd k newFood (b # bs) = Inr (cs, newFood'', k'')"
  obtains b' bs' newFood' k' where
    "blobStep rnd k newFood b = Inr (b', newFood', k')"
    "mapBlobs rnd k' newFood' bs = Inr (bs', newFood'', k'')"
    "cs = b' # bs'"
  using assms by (auto split: sum.splits)

lemma mapBlobs_oneStep:
  "mapBlobs rnd k newFood bs = Inr (bs', newFood', k') \<Longrightarrow>
   list_all2 (\<lambda>b b'. oneStep b b' \<and> (blobInGrid b \<longrightarrow> blobInGrid b')) bs bs'"
proof (induction bs arbitrary: k newFood bs')
  case Nil
  then show ?case by simp
next
  case (Cons b bs)
  from Cons.prems obtain b1 bs1 fd1 k1 where
    step: "blobStep rnd k newFood b = Inr (b1, fd1, k1)" and
    rest: "mapBlobs rnd k1 fd1 bs = Inr (bs1, newFood', k')" and
    eq: "bs' = b1 # bs1"
    by (rule mapBlobs_ConsE)
  from blobStep_oneStep [OF step] Cons.IH [OF rest] eq show ?case by simp
qed

lemma mapBlobs_returns:
  "list_all blobInGrid bs \<Longrightarrow> \<exists>r. mapBlobs rnd k newFood bs = Inr r"
proof (induction bs arbitrary: k newFood)
  case Nil
  then show ?case by simp
next
  case (Cons b bs)
  then have "inGrid (blob_x b) (blob_y b)" by (simp add: blobInGrid_def)
  from blobStep_returns [OF this, of rnd k newFood]
  obtain b1 fd1 k1 where step: "blobStep rnd k newFood b = Inr (b1, fd1, k1)"
    by (metis prod_cases3)
  from Cons obtain r where "mapBlobs rnd k1 fd1 bs = Inr r" by fastforce
  with step show ?case by (cases r) simp
qed

lemma mapBlobs_food:
  assumes "mapBlobs rnd k newFood bs = Inr (bs', newFood', k')"
    and "Num (-1) \<notin> stepsSinceMeal ` set bs"
  shows "mset newFood = mset newFood' + mset (map blobPos (fed bs'))"
  using assms
proof (induction bs arbitrary: k newFood bs')
  case Nil
  then show ?case by (simp add: fed_def)
next
  case (Cons b bs)
  from Cons.prems(1) obtain b1 bs1 fd1 k1 where
    step: "blobStep rnd k newFood b = Inr (b1, fd1, k1)" and
    rest: "mapBlobs rnd k1 fd1 bs = Inr (bs1, newFood', k')" and
    eq: "bs' = b1 # bs1"
    by (rule mapBlobs_ConsE)
  from Cons.prems(2) have ne: "stepsSinceMeal b \<noteq> Num (-1)" and tl: "Num (-1) \<notin> stepsSinceMeal ` set bs"
    by auto
  have IH: "mset fd1 = mset newFood' + mset (map blobPos (fed bs1))"
    using Cons.IH [OF rest tl] .
  from ne have succ: "js_succ (stepsSinceMeal b) \<noteq> Num 0"
    by (cases "stepsSinceMeal b") auto
  from blobStep_food [OF step] show ?case
  proof
    assume a: "stepsSinceMeal b1 = Num 0 \<and> blobPos b1 \<in> set newFood \<and>
      fd1 = remove1 (blobPos b1) newFood"
    then have m: "mset newFood = mset fd1 + {#blobPos b1#}" by simp
    from a eq have f: "fed bs' = b1 # fed bs1" by (simp add: fed_def)
    show ?thesis unfolding m f IH by simp
  next
    assume a: "stepsSinceMeal b1 = js_succ (stepsSinceMeal b) \<and> blobPos b1 \<notin> set newFood \<and>
      fd1 = newFood"
    with succ eq have f: "fed bs' = fed bs1" and m: "fd1 = newFood" by (simp_all add: fed_def)
    show ?thesis unfolding f using IH m by simp
  qed
qed

lemma mapBlobs_food_sub:
  assumes "mapBlobs rnd k newFood bs = Inr (bs', newFood', k')"
  shows "mset newFood' \<subseteq># mset newFood \<and>
    mset newFood \<subseteq># mset newFood' + mset (map blobPos (fed bs'))"
  using assms
proof (induction bs arbitrary: k newFood bs')
  case Nil
  then show ?case by (simp add: fed_def)
next
  case (Cons b bs)
  from Cons.prems obtain b1 bs1 fd1 k1 where
    step: "blobStep rnd k newFood b = Inr (b1, fd1, k1)" and
    rest: "mapBlobs rnd k1 fd1 bs = Inr (bs1, newFood', k')" and
    eq: "bs' = b1 # bs1"
    by (rule mapBlobs_ConsE)
  from Cons.IH [OF rest]
  have IH1: "mset newFood' \<subseteq># mset fd1"
    and IH2: "mset fd1 \<subseteq># mset newFood' + mset (map blobPos (fed bs1))"
    by simp_all
  from blobStep_food [OF step] show ?case
  proof
    assume a: "stepsSinceMeal b1 = Num 0 \<and> blobPos b1 \<in> set newFood \<and>
      fd1 = remove1 (blobPos b1) newFood"
    then have m: "mset newFood = mset fd1 + {#blobPos b1#}" by simp
    from a eq have f: "fed bs' = b1 # fed bs1" by (simp add: fed_def)
    from IH1 have "mset newFood' \<subseteq># mset fd1 + {#blobPos b1#}"
      by (rule subset_mset.add_increasing2 [rotated]) simp
    moreover from IH2 have "mset fd1 + {#blobPos b1#} \<subseteq>#
        mset newFood' + mset (map blobPos (fed bs1)) + {#blobPos b1#}"
      by simp
    ultimately show ?thesis unfolding m f by (simp add: ac_simps)
  next
    assume a: "stepsSinceMeal b1 = js_succ (stepsSinceMeal b) \<and> blobPos b1 \<notin> set newFood \<and>
      fd1 = newFood"
    have "mset (map blobPos (fed bs1)) \<subseteq># mset (map blobPos (fed bs'))"
      unfolding eq by (simp add: fed_def)
    then have "mset newFood' + mset (map blobPos (fed bs1)) \<subseteq>#
        mset newFood' + mset (map blobPos (fed bs'))"
      by simp
    with IH1 IH2 a show ?thesis by (auto intro: subset_mset.order_trans)
  qed
qed

lemma fed_cull: "fed (cull bs) = fed bs"
proof -
  have "\<And>b. stepsSinceMeal b = Num 0 \<Longrightarrow> js_less (stepsSinceMeal b) maxStepsWithoutFood"
    by (simp add: maxStepsWithoutFood_def)
  then show ?thesis
    unfolding fed_def cull_def filter_filter by (auto intro: filter_cong)
qed

lemma advance_InrE:
  assumes "advance rnd k s = Inr (s', k')"
  obtains newBlobs where
    "mapBlobs rnd k (food s) (blobs s) = Inr (newBlobs, food s', k')"
    "blobs s' = cull newBlobs"
  using assms by (auto simp: advance_def split: sum.splits)

section \<open>Properties of terrain generation\<close>

lemma wfGrid_setCell:
  assumes "wfGrid gs g"
  shows "wfGrid gs (setCell g px py v)"
proof (cases "nat py < length g")
  case True
  then have "g ! nat py \<in> set g" by simp
  with assms have "length ((g ! nat py)[nat px := v]) = nat gs"
    by (simp add: wfGrid_def)
  moreover have "set (setCell g px py v) \<subseteq> insert ((g ! nat py)[nat px := v]) (set g)"
    unfolding setCell_def by (rule set_update_subset_insert)
  ultimately show ?thesis
    using assms by (auto simp: wfGrid_def setCell_def)
next
  case False
  then have "setCell g px py v = g" by (simp add: setCell_def list_update_beyond)
  with assms show ?thesis by simp
qed

lemma cellOf_setCell:
  assumes "wfGrid gs g" "inside gs nx ny" "inside gs px py"
  shows "cellOf (setCell g nx ny v) px py = (if px = nx \<and> py = ny then v else cellOf g px py)"
proof -
  from assms have len: "nat ny < length g" "nat py < length g"
    by (auto simp: wfGrid_def inside_def)
  then have "length (g ! nat ny) = nat gs" "length (g ! nat py) = nat gs"
    using assms(1) by (auto simp: wfGrid_def)
  with assms have len2: "nat nx < length (g ! nat ny)" "nat px < length (g ! nat py)"
    by (auto simp: inside_def)
  from assms have eq: "nat px = nat nx \<longleftrightarrow> px = nx" "nat py = nat ny \<longleftrightarrow> py = ny"
    by (auto simp: inside_def)
  show ?thesis
    using len len2 eq by (auto simp: cellOf_def setCell_def nth_list_update)
qed

lemma finite_unassigned: "finite (unassigned gs g)"
proof -
  have "unassigned gs g \<subseteq> {0..<gs} \<times> {0..<gs}"
    by (auto simp: unassigned_def inside_def)
  then show ?thesis by (rule finite_subset) simp
qed

lemma unassigned_setCell:
  assumes "wfGrid gs g" "inside gs nx ny"
  shows "unassigned gs (setCell g nx ny (Some t)) = unassigned gs g - {(nx, ny)}"
  using assms by (auto simp: unassigned_def assigned_def cellOf_setCell split: if_splits)

lemma shuffle_set:
  "i < length ds \<Longrightarrow>
   set (fst (shuffle rnd k i ds)) = set ds \<and> length (fst (shuffle rnd k i ds)) = length ds"
proof (induction i arbitrary: k ds)
  case 0
  then show ?case by simp
next
  case (Suc i)
  define r where "r = nat (randInt rnd k (int (Suc i) + 1))"
  have "0 \<le> randInt rnd k (int (Suc i) + 1) \<and> randInt rnd k (int (Suc i) + 1) < int (Suc i) + 1"
    by (rule randInt_range) simp
  then have r: "r \<le> Suc i" unfolding r_def by linarith
  with Suc.prems have rl: "r < length ds" by simp
  let ?ds = "ds[Suc i := ds ! r, r := ds ! Suc i]"
  have "set ?ds = set ds" using Suc.prems rl by (simp add: set_swap)
  moreover have "length ?ds = length ds" by simp
  moreover have "i < length ?ds" using Suc.prems by simp
  ultimately show ?case
    using Suc.IH [of ?ds "k + 1"] by (simp add: Let_def r_def)
qed

lemma positions_append: "positions (xs @ ys) = positions xs \<union> positions ys"
  by (simp add: positions_def image_Un)

lemma grows_refl: "wfGrid gs g \<Longrightarrow> grows gs g fr g fr"
  unfolding grows_def by fastforce

lemma grows_trans:
  assumes "grows gs g fr g' fr'" "grows gs g' fr' g'' fr''"
  shows "grows gs g fr g'' fr''"
proof -
  from assms(1) obtain new1 where 1: "fr' = fr @ new1"
    "\<forall>px py. inside gs px py \<and> assigned g' px py \<and> \<not> assigned g px py
        \<longrightarrow> (px, py) \<in> positions new1"
    "card (unassigned gs g') + length new1 = card (unassigned gs g)"
    and m1: "\<forall>px py. inside gs px py \<and> assigned g px py \<longrightarrow> assigned g' px py"
    unfolding grows_def by blast
  from assms(2) obtain new2 where 2: "fr'' = fr' @ new2"
    "\<forall>px py. inside gs px py \<and> assigned g'' px py \<and> \<not> assigned g' px py
        \<longrightarrow> (px, py) \<in> positions new2"
    "card (unassigned gs g'') + length new2 = card (unassigned gs g')"
    and m2: "\<forall>px py. inside gs px py \<and> assigned g' px py \<longrightarrow> assigned g'' px py"
    and wf: "wfGrid gs g''"
    unfolding grows_def by blast
  have a: "fr'' = fr @ (new1 @ new2)" using 1(1) 2(1) by simp
  have b: "\<forall>px py. inside gs px py \<and> assigned g'' px py \<and> \<not> assigned g px py
        \<longrightarrow> (px, py) \<in> positions (new1 @ new2)"
    unfolding positions_append using 1(2) 2(2) by blast
  have c: "card (unassigned gs g'') + length (new1 @ new2) = card (unassigned gs g)"
    using 1(3) 2(3) by simp
  from m1 m2 have d: "\<forall>px py. inside gs px py \<and> assigned g px py \<longrightarrow> assigned g'' px py"
    by blast
  show ?thesis unfolding grows_def using wf d a b c by blast
qed

lemma expandDir_assigns:
  assumes wf: "wfGrid gs g" and ins: "inside gs (px + dx) (py + dy)"
    and un: "\<not> assigned g (px + dx) (py + dy)"
  shows "\<exists>t c k'. expandDir gs rnd (px, py, type, chain) (k, g, cg, fr) (dx, dy) =
      (k', setCell g (px + dx) (py + dy) (Some t), setCell cg (px + dx) (py + dy) c,
       fr @ [(px + dx, py + dy, t, c)])"
  using ins un by (simp add: inside_def assigned_def Let_def)

lemma expandDir_skips:
  assumes "\<not> inside gs (px + dx) (py + dy) \<or> assigned g (px + dx) (py + dy)"
  shows "expandDir gs rnd (px, py, type, chain) (k, g, cg, fr) (dx, dy) = (k, g, cg, fr)"
  using assms by (auto simp: inside_def assigned_def Let_def)

lemma expandDir_grows:
  assumes wf: "wfGrid gs g"
    and res: "expandDir gs rnd (px, py, type, chain) (k, g, cg, fr) (dx, dy) = (k', g', cg', fr')"
  shows "grows gs g fr g' fr' \<and>
    (inside gs (px + dx) (py + dy) \<longrightarrow> assigned g' (px + dx) (py + dy))"
proof (cases "inside gs (px + dx) (py + dy) \<and> \<not> assigned g (px + dx) (py + dy)")
  case False
  then have "\<not> inside gs (px + dx) (py + dy) \<or> assigned g (px + dx) (py + dy)"
    by auto
  then have "expandDir gs rnd (px, py, type, chain) (k, g, cg, fr) (dx, dy) = (k, g, cg, fr)"
    by (rule expandDir_skips)
  with res have "g' = g" "fr' = fr" by simp_all
  with False wf show ?thesis by (auto simp: grows_refl)
next
  case True
  then have ins: "inside gs (px + dx) (py + dy)" and un: "\<not> assigned g (px + dx) (py + dy)"
    by simp_all
  from expandDir_assigns [OF wf ins un, of rnd type chain k cg fr] res
  obtain t c where g': "g' = setCell g (px + dx) (py + dy) (Some t)"
    and fr': "fr' = fr @ [(px + dx, py + dy, t, c)]"
    by auto
  have wf': "wfGrid gs g'" unfolding g' using wf by (rule wfGrid_setCell)
  have cell: "\<And>qx qy. inside gs qx qy \<Longrightarrow>
      cellOf g' qx qy = (if qx = px + dx \<and> qy = py + dy then Some t else cellOf g qx qy)"
    unfolding g' using wf ins by (rule cellOf_setCell)
  have mem: "(px + dx, py + dy) \<in> unassigned gs g"
    using ins un by (simp add: unassigned_def)
  have "unassigned gs g' = unassigned gs g - {(px + dx, py + dy)}"
    unfolding g' using wf ins by (rule unassigned_setCell)
  with card.remove [OF finite_unassigned mem]
  have card: "card (unassigned gs g') + length [(px + dx, py + dy, t, c)] = card (unassigned gs g)"
    by simp
  have mono: "\<forall>qx qy. inside gs qx qy \<and> assigned g qx qy \<longrightarrow> assigned g' qx qy"
    by (simp add: cell assigned_def)
  have new: "\<forall>qx qy. inside gs qx qy \<and> assigned g' qx qy \<and> \<not> assigned g qx qy
      \<longrightarrow> (qx, qy) \<in> positions [(px + dx, py + dy, t, c)]"
    by (auto simp: cell assigned_def positions_def split: if_splits)
  have "grows gs g fr g' fr'"
    unfolding grows_def using wf' mono fr' new card by blast
  moreover have "assigned g' (px + dx) (py + dy)" using ins by (simp add: cell assigned_def)
  ultimately show ?thesis by simp
qed

lemma grows_wfGrid: "grows gs g fr g' fr' \<Longrightarrow> wfGrid gs g'"
  by (simp add: grows_def)

lemma grows_mono:
  "grows gs g fr g' fr' \<Longrightarrow> inside gs px py \<Longrightarrow> assigned g px py \<Longrightarrow>
   assigned g' px py"
  unfolding grows_def by blast

lemma expand_grows:
  assumes "wfGrid gs g"
    and "foldl (expandDir gs rnd (px, py, type, chain)) (k, g, cg, fr) ds = (k', g', cg', fr')"
  shows "grows gs g fr g' fr' \<and>
    (\<forall>d\<in>set ds. inside gs (px + fst d) (py + snd d) \<longrightarrow>
        assigned g' (px + fst d) (py + snd d))"
  using assms
proof (induction ds arbitrary: k g cg fr)
  case Nil
  then show ?case by (simp add: grows_refl)
next
  case (Cons d ds)
  obtain dx dy where d: "d = (dx, dy)" by (cases d)
  obtain k1 g1 cg1 fr1 where
    step: "expandDir gs rnd (px, py, type, chain) (k, g, cg, fr) (dx, dy) = (k1, g1, cg1, fr1)"
    by (metis prod_cases4)
  from expandDir_grows [OF Cons.prems(1) step]
  have g1: "grows gs g fr g1 fr1"
    and here: "inside gs (px + dx) (py + dy) \<longrightarrow> assigned g1 (px + dx) (py + dy)"
    by blast+
  from Cons.prems(2) have rest:
    "foldl (expandDir gs rnd (px, py, type, chain)) (k1, g1, cg1, fr1) ds = (k', g', cg', fr')"
    unfolding d foldl_Cons step .
  from Cons.IH [OF grows_wfGrid [OF g1] rest]
  have g2: "grows gs g1 fr1 g' fr'"
    and there: "\<forall>d\<in>set ds. inside gs (px + fst d) (py + snd d) \<longrightarrow>
        assigned g' (px + fst d) (py + snd d)"
    by blast+
  from here grows_mono [OF g2]
  have "inside gs (px + dx) (py + dy) \<longrightarrow> assigned g' (px + dx) (py + dy)"
    by blast
  with there grows_trans [OF g1 g2] show ?case by (simp add: d)
qed

text \<open>A set of cells that holds one cell of the grid and, with a cell, its neighbours
  inside the grid, holds every cell of the grid.\<close>

lemma flood:
  assumes start: "A cx cy" "inside gs cx cy"
    and step: "\<And>px py d. inside gs px py \<Longrightarrow> A px py \<Longrightarrow> d \<in> set directions0 \<Longrightarrow>
      inside gs (px + fst d) (py + snd d) \<Longrightarrow> A (px + fst d) (py + snd d)"
    and goal: "inside gs qx qy"
  shows "A qx qy"
proof -
  have right: "px < gs \<longrightarrow> A px cy" if "cx \<le> px" for px
    using that
  proof (induction px rule: int_ge_induct)
    case base
    then show ?case using start by simp
  next
    case (step i)
    show ?case
    proof
      assume lt: "i + 1 < gs"
      with step have "A i cy" by simp
      moreover have "inside gs i cy" "inside gs (i + fst (1 :: int, 0 :: int)) (cy + snd (1 :: int, 0 :: int))"
        using start(2) step(1) lt by (simp_all add: inside_def)
      moreover have "(1, 0) \<in> set directions0" by (simp add: directions0_def)
      ultimately have "A (i + fst (1 :: int, 0 :: int)) (cy + snd (1 :: int, 0 :: int))"
        using assms(3) by blast
      then show "A (i + 1) cy" by simp
    qed
  qed
  have left: "0 \<le> px \<longrightarrow> A px cy" if "px \<le> cx" for px
    using that
  proof (induction px rule: int_le_induct)
    case base
    then show ?case using start by simp
  next
    case (step i)
    show ?case
    proof
      assume ge: "0 \<le> i - 1"
      with step have "A i cy" by simp
      moreover have "inside gs i cy" "inside gs (i + fst (-1 :: int, 0 :: int)) (cy + snd (-1 :: int, 0 :: int))"
        using start(2) step(1) ge by (simp_all add: inside_def)
      moreover have "(-1, 0) \<in> set directions0" by (simp add: directions0_def)
      ultimately have "A (i + fst (-1 :: int, 0 :: int)) (cy + snd (-1 :: int, 0 :: int))"
        using assms(3) by blast
      then show "A (i - 1) cy" by simp
    qed
  qed
  from goal have qx: "0 \<le> qx" "qx < gs" and qy: "0 \<le> qy" "qy < gs"
    by (simp_all add: inside_def)
  have row: "A qx cy"
    using right [of qx] left [of qx] qx by (cases "cx \<le> qx") auto
  have rowin: "inside gs qx cy" using qx start(2) by (simp add: inside_def)
  have up: "py < gs \<longrightarrow> A qx py" if "cy \<le> py" for py
    using that
  proof (induction py rule: int_ge_induct)
    case base
    then show ?case using row by simp
  next
    case (step i)
    show ?case
    proof
      assume lt: "i + 1 < gs"
      with step have "A qx i" by simp
      moreover have "inside gs qx i" "inside gs (qx + fst (0 :: int, 1 :: int)) (i + snd (0 :: int, 1 :: int))"
        using rowin step(1) lt by (simp_all add: inside_def)
      moreover have "(0, 1) \<in> set directions0" by (simp add: directions0_def)
      ultimately have "A (qx + fst (0 :: int, 1 :: int)) (i + snd (0 :: int, 1 :: int))"
        using assms(3) by blast
      then show "A qx (i + 1)" by simp
    qed
  qed
  have down: "0 \<le> py \<longrightarrow> A qx py" if "py \<le> cy" for py
    using that
  proof (induction py rule: int_le_induct)
    case base
    then show ?case using row by simp
  next
    case (step i)
    show ?case
    proof
      assume ge: "0 \<le> i - 1"
      with step have "A qx i" by simp
      moreover have "inside gs qx i" "inside gs (qx + fst (0 :: int, -1 :: int)) (i + snd (0 :: int, -1 :: int))"
        using rowin step(1) ge by (simp_all add: inside_def)
      moreover have "(0, -1) \<in> set directions0" by (simp add: directions0_def)
      ultimately have "A (qx + fst (0 :: int, -1 :: int)) (i + snd (0 :: int, -1 :: int))"
        using assms(3) by blast
      then show "A qx (i - 1)" by simp
    qed
  qed
  show ?thesis
    using up [of qy] down [of qy] qy by (cases "cy \<le> qy") auto
qed

lemma positions_splice1:
  assumes "i < length fr"
  shows "positions fr = insert (fst (fr ! i), fst (snd (fr ! i))) (positions (splice1 i fr))"
proof -
  have "fr = take i fr @ fr ! i # drop (Suc i) fr"
    using assms by (simp add: id_take_nth_drop)
  then have "set fr = insert (fr ! i) (set (splice1 i fr))"
    unfolding splice1_def by (metis Un_insert_right list.simps(15) set_append)
  then show ?thesis by (simp add: positions_def)
qed

lemma generateGrid_loop_terminates:
  assumes "wfGrid gs g" "set ds = set directions0" "length ds = 8" "closed gs g fr"
  shows "\<exists>g' k'. generateGrid_loop gs rnd ds k g cg fr = Some (g', k') \<and> wfGrid gs g' \<and>
    closed gs g' [] \<and>
    (\<forall>px py. inside gs px py \<and> assigned g px py \<longrightarrow> assigned g' px py)"
  using assms
proof (induction "card (unassigned gs g) + length fr" arbitrary: g fr ds k cg rule: less_induct)
  case less
  show ?case
  proof (cases "fr = []")
    case True
    then have "generateGrid_loop gs rnd ds k g cg fr = Some (g, k)"
      by (subst generateGrid_loop.simps) simp
    with less.prems True show ?thesis by simp
  next
    case False
    define idx where "idx = nat (randInt rnd k (int (length fr)))"
    define cur where "cur = fr ! idx"
    define fr1 where "fr1 = splice1 idx fr"
    define sh where "sh = shuffle rnd (k + 1) (length ds - 1) ds"
    define st where "st = foldl (expandDir gs rnd cur) (snd sh, g, cg, fr1) (fst sh)"
    have unfold: "generateGrid_loop gs rnd ds k g cg fr =
      generateGrid_loop gs rnd (fst sh) (fst st) (fst (snd st)) (fst (snd (snd st)))
        (snd (snd (snd st)))"
      unfolding st_def sh_def fr1_def cur_def idx_def using False
      by (subst generateGrid_loop.simps) (simp add: Let_def case_prod_unfold)
    obtain cx cy ct cc where cur: "cur = (cx, cy, ct, cc)" by (metis prod_cases4)
    obtain k2 g2 cg2 fr2 where st: "st = (k2, g2, cg2, fr2)" by (metis prod_cases4)
    have "0 < int (length fr)" using False by simp
    from randInt_range [OF this, of rnd k] have idx: "idx < length fr"
      unfolding idx_def by linarith
    have pos: "positions fr = insert (cx, cy) (positions fr1)"
      using positions_splice1 [OF idx] by (simp add: fr1_def cur_def [symmetric] cur)
    have len1: "Suc (length fr1) = length fr"
      using idx by (simp add: fr1_def splice1_def)
    have "length ds - 1 < length ds" using less.prems(3) by simp
    from shuffle_set [OF this, of rnd "k + 1"]
    have sh: "set (fst sh) = set directions0" "length (fst sh) = 8"
      using less.prems(2,3) by (simp_all add: sh_def)
    have fold: "foldl (expandDir gs rnd (cx, cy, ct, cc)) (snd sh, g, cg, fr1) (fst sh) =
        (k2, g2, cg2, fr2)"
      using st unfolding st_def cur .
    from expand_grows [OF less.prems(1) fold]
    have gr: "grows gs g fr1 g2 fr2"
      and nb: "\<forall>d\<in>set directions0. inside gs (cx + fst d) (cy + snd d) \<longrightarrow>
        assigned g2 (cx + fst d) (cy + snd d)"
      unfolding sh(1) by blast+
    from gr obtain new where new: "fr2 = fr1 @ new"
      "\<forall>px py. inside gs px py \<and> assigned g2 px py \<and> \<not> assigned g px py
          \<longrightarrow> (px, py) \<in> positions new"
      "card (unassigned gs g2) + length new = card (unassigned gs g)"
      unfolding grows_def by blast
    have wf2: "wfGrid gs g2" using gr by (rule grows_wfGrid)
    have mono: "\<And>px py. inside gs px py \<Longrightarrow> assigned g px py \<Longrightarrow> assigned g2 px py"
      using gr by (rule grows_mono)
    have closed2: "closed gs g2 fr2"
      unfolding closed_def
    proof (intro allI impI ballI)
      fix px py d
      assume a: "inside gs px py \<and> assigned g2 px py \<and> (px, py) \<notin> positions fr2"
        and d: "d \<in> set directions0" and ins: "inside gs (px + fst d) (py + snd d)"
      from a new(1) have notin: "(px, py) \<notin> positions fr1" "(px, py) \<notin> positions new"
        by (simp_all add: positions_append)
      with new(2) a have was: "assigned g px py" by blast
      show "assigned g2 (px + fst d) (py + snd d)"
      proof (cases "(px, py) = (cx, cy)")
        case True
        with nb d ins show ?thesis by auto
      next
        case False
        with notin(1) pos have "(px, py) \<notin> positions fr" by simp
        with less.prems(4) a was d ins have "assigned g (px + fst d) (py + snd d)"
          unfolding closed_def by blast
        with ins show ?thesis by (simp add: mono)
      qed
    qed
    have smaller: "card (unassigned gs g2) + length fr2 < card (unassigned gs g) + length fr"
      using new(1,3) len1 by simp
    from less.hyps [OF smaller wf2 sh closed2, of k2 cg2]
    obtain g' k' where res: "generateGrid_loop gs rnd (fst sh) k2 g2 cg2 fr2 = Some (g', k')"
      "wfGrid gs g'" "closed gs g' []"
      "\<forall>px py. inside gs px py \<and> assigned g2 px py \<longrightarrow> assigned g' px py"
      by blast
    from res(4) mono have "\<forall>px py. inside gs px py \<and> assigned g px py \<longrightarrow> assigned g' px py"
      by blast
    with res(1,2,3) show ?thesis unfolding unfold st by simp
  qed
qed

lemma cellOf_replicate:
  "inside gs px py \<Longrightarrow> cellOf (replicate (nat gs) (replicate (nat gs) v)) px py = v"
  by (simp add: cellOf_def inside_def)

lemma wfGrid_replicate: "wfGrid gs (replicate (nat gs) (replicate (nat gs) v))"
  by (simp add: wfGrid_def)

lemma generateGrid_size_covers:
  assumes "1 \<le> gs"
  shows "covers gs (generateGrid_size gs rnd k)"
proof -
  define c where "c = gs div 2"
  define grid0 :: grid where "grid0 = replicate (nat gs) (replicate (nat gs) None)"
  define grid1 where "grid1 = setCell grid0 c c (Some Soil)"
  define chainGrid1 :: "int list list" where
    "chainGrid1 = setCell (replicate (nat gs) (replicate (nat gs) 0)) c c 1"
  have centre: "inside gs c c" using assms by (simp add: inside_def c_def)
  have wf0: "wfGrid gs grid0" unfolding grid0_def by (rule wfGrid_replicate)
  then have wf1: "wfGrid gs grid1" unfolding grid1_def by (rule wfGrid_setCell)
  have cell1: "cellOf grid1 px py = (if px = c \<and> py = c then Some Soil else None)"
    if "inside gs px py" for px py
    unfolding grid1_def using cellOf_setCell [OF wf0 centre that, of "Some Soil"]
    by (simp add: grid0_def cellOf_replicate [OF that])
  have "closed gs grid1 [(c, c, Soil, 1)]"
    unfolding closed_def by (auto simp: assigned_def cell1 positions_def)
  from generateGrid_loop_terminates [OF wf1 refl _ this, of rnd k chainGrid1]
  obtain g k' where loop: "generateGrid_loop gs rnd directions0 k grid1 chainGrid1 [(c, c, Soil, 1)] = Some (g, k')"
    and wf: "wfGrid gs g" and cl: "closed gs g []"
    and mono: "\<forall>px py. inside gs px py \<and> assigned grid1 px py \<longrightarrow> assigned g px py"
    by (auto simp: directions0_def)
  have "assigned grid1 c c" using centre by (simp add: assigned_def cell1)
  with mono centre have start: "assigned g c c" by blast
  have all: "assigned g qx qy" if "inside gs qx qy" for qx qy
  proof (rule flood [where A = "assigned g", OF start centre _ that])
    fix px py d
    assume "inside gs px py" "assigned g px py" "d \<in> set directions0"
      "inside gs (px + fst d) (py + snd d)"
    with cl show "assigned g (px + fst d) (py + snd d)"
      unfolding closed_def by (simp add: positions_def)
  qed
  have cells: "\<forall>row\<in>set g. length row = nat gs \<and>
           (\<forall>c\<in>set row. c \<in> {Some Soil, Some Sand, Some Water})"
  proof (intro ballI conjI)
    fix row assume row: "row \<in> set g"
    with wf show len: "length row = nat gs" by (simp add: wfGrid_def)
    fix v assume "v \<in> set row"
    then obtain i where i: "i < length row" "row ! i = v" by (auto simp: in_set_conv_nth)
    from row obtain j where j: "j < length g" "g ! j = row" by (auto simp: in_set_conv_nth)
    from wf have "length g = nat gs" by (simp add: wfGrid_def)
    with i(1) j(1) len have "inside gs (int i) (int j)"
      by (simp add: inside_def zless_nat_eq_int_zless)
    from all [OF this] have "v \<noteq> None" using i(2) j(2) by (simp add: assigned_def cellOf_def)
    then obtain t where "v = Some t" by auto
    then show "v \<in> {Some Soil, Some Sand, Some Water}" by (cases t) simp_all
  qed
  have "generateGrid_size gs rnd k = Some (Inr (g, k'))"
    using assms loop
    by (simp add: generateGrid_size_def Let_def c_def grid1_def grid0_def chainGrid1_def)
  with wf cells show ?thesis unfolding covers_def wfGrid_def by blast
qed

lemma generateGrid_size_2:
  "generateGrid_size 2 zeroDraws 0 =
     Some (Inr ([[Some Soil, Some Soil], [Some Soil, Some Soil]], 35))"
  by (simp add: generateGrid_size_def Let_def setCell_def cellOf_def directions0_def
      generateGrid_loop.simps randInt_zeroDraws splice1_def Math_random_zeroDraws
      toDouble_one eval_nat_numeral)

lemma expandDir_water:
  assumes "expandDir gs rnd (px, py, Water, c) (k, g, cg, fr) d = (k', g', cg', fr')"
  shows "k' = k \<and> (fr' = fr \<or> fr' = fr @ [(px + fst d, py + snd d, Water, c + 1)])"
  using assms by (cases d) (auto simp: Let_def split: if_splits)

lemma descendant_water:
  assumes "descendant gs rnd e e'" "fst (snd (snd e)) = Water"
  shows "fst (snd (snd e')) = Water"
  using assms
proof (induction rule: descendant.induct)
  case itself
  then show ?case by simp
next
  case (child e0 e1 k g cg fr d k' g' cg' e2)
  then have w: "fst (snd (snd e1)) = Water" by simp
  obtain px py t c where e1: "e1 = (px, py, t, c)" by (metis prod_cases4)
  with w have t: "t = Water" by simp
  from child.hyps(2) [unfolded e1 t, THEN expandDir_water]
  show ?case by auto
qed

section \<open>Properties of seeding\<close>

declare generateFood_loop.simps [simp del]
declare generateBlobs_loop.simps [simp del]

lemma randInt_gridSize: "inGrid (randInt rnd k gridSize) (randInt rnd k' gridSize)"
  using randInt_range [of gridSize rnd k] randInt_range [of gridSize rnd k']
  by (simp add: inGrid_def gridSize_def)

lemma readCell_returns:
  assumes "gridSize \<le> int (length grid)" "inGrid px py"
  shows "\<exists>c. readCell grid px py = Inr c"
  using assms by (auto simp: readCell_def inGrid_def)

lemma generateFood_loop_stop:
  "\<not> (length foodArr < initialFoodCount \<and> attempts < 10000) \<Longrightarrow>
   generateFood_loop rnd grid k foodArr attempts = Inr (foodArr, attempts, k)"
  by (subst generateFood_loop.simps) (simp only: if_False)

lemma generateFood_loop_step:
  "length foodArr < initialFoodCount \<and> attempts < 10000 \<Longrightarrow>
   generateFood_loop rnd grid k foodArr attempts =
     (case readCell grid (randInt rnd k gridSize) (randInt rnd (k + 1) gridSize) of
        Inl e \<Rightarrow> Inl e
      | Inr c \<Rightarrow>
          generateFood_loop rnd grid (k + 2)
            (if c = Some Soil \<and>
                \<not> list_ex (atPos (randInt rnd k gridSize) (randInt rnd (k + 1) gridSize)) foodArr
             then foodArr @ [(randInt rnd k gridSize, randInt rnd (k + 1) gridSize)]
             else foodArr)
            (attempts + 1))"
  by (subst generateFood_loop.simps) (simp only: if_True Let_def simp_thms)

lemma generateBlobs_loop_stop:
  "\<not> (length blobArr < initialBlobCount \<and> attempts < 10000) \<Longrightarrow>
   generateBlobs_loop rnd grid k blobArr attempts = Inr (blobArr, attempts, k)"
  by (subst generateBlobs_loop.simps) (simp only: if_False)

lemma generateBlobs_loop_step:
  "length blobArr < initialBlobCount \<and> attempts < 10000 \<Longrightarrow>
   generateBlobs_loop rnd grid k blobArr attempts =
     (case readCell grid (randInt rnd k gridSize) (randInt rnd (k + 1) gridSize) of
        Inl e \<Rightarrow> Inl e
      | Inr c \<Rightarrow>
          generateBlobs_loop rnd grid (k + 2)
            (if c = Some Soil \<and>
                \<not> list_ex (\<lambda>f. blob_x f = randInt rnd k gridSize \<and>
                                 blob_y f = randInt rnd (k + 1) gridSize) blobArr
             then blobArr @ [\<lparr>blob_x = randInt rnd k gridSize,
                               blob_y = randInt rnd (k + 1) gridSize,
                               stepsSinceMeal = Undefined\<rparr>]
             else blobArr)
            (attempts + 1))"
  by (subst generateBlobs_loop.simps) (simp only: if_True Let_def simp_thms)

lemma generateFood_loop_returns:
  assumes "gridSize \<le> int (length grid)"
  shows "\<exists>r. generateFood_loop rnd grid k foodArr attempts = Inr r"
  using assms
proof (induction rnd grid k foodArr attempts rule: generateFood_loop.induct)
  case (1 rnd grid k foodArr attempts)
  show ?case
  proof (cases "length foodArr < initialFoodCount \<and> attempts < 10000")
    case False
    then show ?thesis by (simp add: generateFood_loop_stop)
  next
    case True
    have "inGrid (randInt rnd k gridSize) (randInt rnd (k + 1) gridSize)"
      by (rule randInt_gridSize)
    with "1.prems" obtain c where
      c: "readCell grid (randInt rnd k gridSize) (randInt rnd (k + 1) gridSize) = Inr c"
      using readCell_returns by blast
    from "1.IH" [OF True refl refl c "1.prems"]
    show ?thesis
      unfolding generateFood_loop_step [OF True] c by simp
  qed
qed

lemma generateFood_loop_inv:
  assumes "generateFood_loop rnd grid k foodArr attempts = Inr (ps, a', k')"
    and "list_all (onSoil grid) foodArr" "distinct foodArr"
    and "length foodArr \<le> initialFoodCount" "attempts \<le> 10000"
  shows "list_all (onSoil grid) ps \<and> distinct ps \<and> length ps \<le> initialFoodCount \<and>
    (length ps = initialFoodCount \<or> a' = 10000) \<and> k' = k + 2 * (a' - attempts) \<and>
    attempts \<le> a' \<and> a' \<le> 10000 \<and> set foodArr \<subseteq> set ps \<and>
    set ps \<subseteq> set foodArr \<union>
      (\<lambda>j. (randInt rnd j gridSize, randInt rnd (j + 1) gridSize)) ` {j. k \<le> j \<and> j + 1 < k'}"
  using assms
proof (induction rnd grid k foodArr attempts rule: generateFood_loop.induct)
  case (1 rnd grid k foodArr attempts)
  show ?case
  proof (cases "length foodArr < initialFoodCount \<and> attempts < 10000")
    case False
    with "1.prems"(1) have "ps = foodArr" "a' = attempts" "k' = k"
      by (simp_all add: generateFood_loop_stop)
    with False "1.prems" show ?thesis by auto
  next
    case True
    define px where "px = randInt rnd k gridSize"
    define py where "py = randInt rnd (k + 1) gridSize"
    define acc where "acc c = (if c = Some Soil \<and> \<not> list_ex (atPos px py) foodArr
                   then foodArr @ [(px, py)] else foodArr)" for c
    have g: "inGrid px py" unfolding px_def py_def by (rule randInt_gridSize)
    have unfold: "generateFood_loop rnd grid k foodArr attempts =
      (case readCell grid px py of Inl e \<Rightarrow> Inl e
       | Inr c \<Rightarrow> generateFood_loop rnd grid (k + 2) (acc c) (attempts + 1))"
      unfolding px_def py_def acc_def using True by (rule generateFood_loop_step)
    with "1.prems"(1) obtain c where c: "readCell grid px py = Inr c"
      and rest: "generateFood_loop rnd grid (k + 2) (acc c) (attempts + 1) = Inr (ps, a', k')"
      by (auto split: sum.splits)
    have "onSoil grid (px, py)" if "c = Some Soil"
      using that g c by (simp add: onSoil_def)
    then have soil: "list_all (onSoil grid) (acc c)"
      using "1.prems"(2) by (simp add: acc_def)
    have dist: "distinct (acc c)"
      using "1.prems"(3) by (auto simp: acc_def list_ex_iff atPos_def)
    have len: "length (acc c) \<le> initialFoodCount"
      using True by (simp add: acc_def)
    have att: "attempts + 1 \<le> 10000" using True by simp
    have sub: "set foodArr \<subseteq> set (acc c)" by (auto simp: acc_def)
    have IH: "list_all (onSoil grid) ps \<and> distinct ps \<and> length ps \<le> initialFoodCount \<and>
      (length ps = initialFoodCount \<or> a' = 10000) \<and> k' = k + 2 + 2 * (a' - (attempts + 1)) \<and>
      attempts + 1 \<le> a' \<and> a' \<le> 10000 \<and> set (acc c) \<subseteq> set ps \<and>
      set ps \<subseteq> set (acc c) \<union>
        (\<lambda>j. (randInt rnd j gridSize, randInt rnd (j + 1) gridSize)) ` {j. k + 2 \<le> j \<and> j + 1 < k'}"
      using "1.IH" [OF True px_def py_def c rest [unfolded acc_def] soil [unfolded acc_def]
        dist [unfolded acc_def] len [unfolded acc_def] att]
      unfolding acc_def .
    then have k': "k' = k + 2 * (a' - attempts)" and le: "attempts \<le> a'" and lt: "k + 1 < k'"
      by auto
    have "set (acc c) \<subseteq> set foodArr \<union>
        (\<lambda>j. (randInt rnd j gridSize, randInt rnd (j + 1) gridSize)) ` {j. k \<le> j \<and> j + 1 < k'}"
      using lt by (auto simp: acc_def px_def py_def)
    moreover have "(\<lambda>j. (randInt rnd j gridSize, randInt rnd (j + 1) gridSize)) ` {j. k + 2 \<le> j \<and> j + 1 < k'}
        \<subseteq> (\<lambda>j. (randInt rnd j gridSize, randInt rnd (j + 1) gridSize)) ` {j. k \<le> j \<and> j + 1 < k'}"
      by auto
    ultimately have drawn: "set ps \<subseteq> set foodArr \<union>
        (\<lambda>j. (randInt rnd j gridSize, randInt rnd (j + 1) gridSize)) ` {j. k \<le> j \<and> j + 1 < k'}"
      using IH by blast
    from IH sub have "set foodArr \<subseteq> set ps" by blast
    with IH k' le drawn show ?thesis by blast
  qed
qed

lemma generateBlobs_loop_sim:
  "generateBlobs_loop rnd grid k (map (\<lambda>p. \<lparr>blob_x = fst p, blob_y = snd p, stepsSinceMeal = Undefined\<rparr>) foodArr) attempts =
     (case generateFood_loop rnd grid k foodArr attempts of
        Inl e \<Rightarrow> Inl e
      | Inr (ps, a', k') \<Rightarrow>
          Inr (map (\<lambda>p. \<lparr>blob_x = fst p, blob_y = snd p, stepsSinceMeal = Undefined\<rparr>) ps, a', k'))"
proof (induction rnd grid k foodArr attempts rule: generateFood_loop.induct)
  case (1 rnd grid k foodArr attempts)
  let ?mk = "\<lambda>p. \<lparr>blob_x = fst p, blob_y = snd p, stepsSinceMeal = Undefined\<rparr>"
  show ?case
  proof (cases "length foodArr < initialFoodCount \<and> attempts < 10000")
    case False
    then have "\<not> (length (map ?mk foodArr) < initialBlobCount \<and> attempts < 10000)"
      by (simp add: initialFoodCount_def initialBlobCount_def)
    with False show ?thesis
      by (simp add: generateFood_loop_stop generateBlobs_loop_stop)
  next
    case True
    then have True': "length (map ?mk foodArr) < initialBlobCount \<and> attempts < 10000"
      by (simp add: initialFoodCount_def initialBlobCount_def)
    define px where "px = randInt rnd k gridSize"
    define py where "py = randInt rnd (k + 1) gridSize"
    have ex: "list_ex (\<lambda>f. blob_x f = px \<and> blob_y f = py) (map ?mk foodArr) =
      list_ex (atPos px py) foodArr"
      by (simp add: list_ex_iff atPos_def)
    show ?thesis
    proof (cases "readCell grid px py")
      case (Inl e)
      then show ?thesis
        unfolding generateFood_loop_step [OF True] generateBlobs_loop_step [OF True']
        by (simp add: px_def py_def)
    next
      case (Inr c)
      from "1.IH" [OF True px_def py_def Inr] Inr ex
      show ?thesis
        unfolding generateFood_loop_step [OF True] generateBlobs_loop_step [OF True']
        unfolding px_def py_def
        by (auto split: sum.splits)
    qed
  qed
qed

lemma generateBlobs_generateFood:
  "generateBlobs rnd k grid =
     (case generateFood rnd k grid of
        Inl e \<Rightarrow> Inl e
      | Inr (ps, k') \<Rightarrow> Inr (map seedBlob ps, k'))"
proof -
  have "seedBlob = (\<lambda>p. \<lparr>blob_x = fst p, blob_y = snd p, stepsSinceMeal = Undefined\<rparr>)"
    by (rule ext) (simp add: seedBlob_def)
  with generateBlobs_loop_sim [of rnd grid k "[]" 0] show ?thesis
    by (simp add: generateBlobs_def generateFood_def split: sum.splits)
qed

lemma generateFood_returns:
  "gridSize \<le> int (length grid) \<Longrightarrow> \<exists>ps k'. generateFood rnd k grid = Inr (ps, k')"
  using generateFood_loop_returns [of grid rnd k "[]" 0]
  by (auto simp: generateFood_def)

lemma generateFood_seeded:
  assumes "generateFood rnd k grid = Inr (ps, k')"
  shows "seeded grid initialFoodCount ps (k' - k) \<and> k \<le> k' \<and> k' \<le> k + 20000 \<and>
    set ps \<subseteq> (\<lambda>j. (randInt rnd j gridSize, randInt rnd (j + 1) gridSize)) ` {j. k \<le> j \<and> j + 1 < k'}"
proof -
  from assms obtain a' where
    loop: "generateFood_loop rnd grid k [] 0 = Inr (ps, a', k')"
    by (auto simp: generateFood_def split: sum.splits)
  from generateFood_loop_inv [OF loop] show ?thesis
    by (auto simp: seeded_def)
qed

lemma map_blobPos_seedBlob: "map blobPos (map seedBlob ps) = ps"
  by (induction ps) (simp_all add: blobPos_def seedBlob_def)

lemma readCell_replicate:
  assumes "inGrid px py"
  shows "readCell (replicate 100 (replicate 100 c)) px py = Inr c"
proof -
  from assms have "nat py < 100" "nat px < 100" "0 \<le> px" "0 \<le> py" "px < 100" "py < 100"
    unfolding inGrid_def gridSize_def by auto
  then show ?thesis by (simp add: readCell_def)
qed

lemma readCell_soilGrid: "inGrid px py \<Longrightarrow> readCell soilGrid px py = Inr (Some Soil)"
  unfolding soilGrid_def by (rule readCell_replicate)

lemma onSoil_waterGrid: "\<not> onSoil waterGrid p"
  unfolding waterGrid_def onSoil_def by (auto simp: readCell_replicate)

lemma generateFood_waterGrid: "generateFood rnd k waterGrid = Inr ([], k + 20000)"
proof -
  have "gridSize \<le> int (length waterGrid)" by (simp add: gridSize_def waterGrid_def)
  then obtain ps k' where r: "generateFood rnd k waterGrid = Inr (ps, k')"
    using generateFood_returns by blast
  from generateFood_seeded [OF r] have s: "seeded waterGrid initialFoodCount ps (k' - k)" and "k \<le> k'"
    by auto
  from s have "ps = []" by (cases ps) (simp_all add: seeded_def onSoil_waterGrid)
  with s \<open>k \<le> k'\<close> have "k' = k + 20000" by (simp add: seeded_def initialFoodCount_def)
  with r \<open>ps = []\<close> show ?thesis by simp
qed

lemma generateFood_soilGrid_constant:
  assumes const: "\<forall>j. k \<le> j \<and> j < k + 20000 \<longrightarrow> randInt rnd j gridSize = c"
  shows "generateFood rnd k soilGrid = Inr ([(c, c)], k + 20000)"
proof -
  have rows: "gridSize \<le> int (length soilGrid)" by (simp add: gridSize_def soilGrid_def)
  from const have c0: "randInt rnd k gridSize = c" and c1: "randInt rnd (k + 1) gridSize = c"
    by auto
  have g: "inGrid c c" using randInt_gridSize [of rnd k k] c0 by simp
  have "length ([] :: food_item list) < initialFoodCount \<and> (0::nat) < 10000"
    by (simp add: initialFoodCount_def)
  from generateFood_loop_step [OF this, of rnd soilGrid k, unfolded c0 c1 readCell_soilGrid [OF g]]
  have first: "generateFood_loop rnd soilGrid k [] 0 = generateFood_loop rnd soilGrid (k + 2) [(c, c)] 1"
    by simp
  from generateFood_loop_returns [OF rows, of rnd "k + 2" "[(c, c)]" 1]
  obtain ps a' k' where loop: "generateFood_loop rnd soilGrid (k + 2) [(c, c)] 1 = Inr (ps, a', k')"
    by (metis prod_cases3)
  have soil: "list_all (onSoil soilGrid) [(c, c)]"
    using g by (simp add: onSoil_def readCell_soilGrid)
  have pre: "distinct [(c, c)]" "length [(c, c)] \<le> initialFoodCount" "(1::nat) \<le> 10000"
    by (simp_all add: initialFoodCount_def)
  note I = generateFood_loop_inv [OF loop soil pre]
  from I have inv: "distinct ps" "length ps = initialFoodCount \<or> a' = 10000"
    "k' = k + 2 + 2 * (a' - 1)" "1 \<le> a'" "a' \<le> 10000" "set [(c, c)] \<subseteq> set ps"
    "set ps \<subseteq> set [(c, c)] \<union>
      (\<lambda>j. (randInt rnd j gridSize, randInt rnd (j + 1) gridSize)) ` {j. k + 2 \<le> j \<and> j + 1 < k'}"
    by blast+
  have "k' \<le> k + 20000" using inv(3,4,5) by simp
  then have "(\<lambda>j. (randInt rnd j gridSize, randInt rnd (j + 1) gridSize)) ` {j. k + 2 \<le> j \<and> j + 1 < k'}
    \<subseteq> {(c, c)}"
    using const by auto
  with inv(6,7) have "set ps = {(c, c)}" by auto
  with inv(1) have "length ps = 1" using distinct_card [of ps] by simp
  then obtain p where "ps = [p]" by (cases ps) auto
  with \<open>set ps = {(c, c)}\<close> have ps: "ps = [(c, c)]" by simp
  with inv(2) have "a' = 10000" by (simp add: initialFoodCount_def)
  with inv(3) have "k' = k + 20000" by simp
  with first loop ps show ?thesis by (simp add: generateFood_def)
qed

lemma generateBlobs_soilGrid_constant:
  assumes "\<forall>j. k \<le> j \<and> j < k + 20000 \<longrightarrow> randInt rnd j gridSize = c"
  shows "generateBlobs rnd k soilGrid =
    Inr ([\<lparr>blob_x = c, blob_y = c, stepsSinceMeal = Undefined\<rparr>], k + 20000)"
  unfolding generateBlobs_generateFood generateFood_soilGrid_constant [OF assms]
  by (simp add: seedBlob_def)

lemma generateBlobs_seeded:
  assumes "generateBlobs rnd k grid = Inr (bs, k')"
  shows "seeded grid initialBlobCount (map blobPos bs) (k' - k) \<and>
    list_all (\<lambda>b. stepsSinceMeal b = Undefined) bs \<and> list_all blobInGrid bs"
proof -
  from assms obtain ps where ps: "generateFood rnd k grid = Inr (ps, k')" and bs: "bs = map seedBlob ps"
    unfolding generateBlobs_generateFood by (auto split: sum.splits)
  from generateFood_seeded [OF ps] have s: "seeded grid initialFoodCount ps (k' - k)"
    by simp
  then have "list_all (onSoil grid) ps" by (simp add: seeded_def)
  then have "list_all blobInGrid (map seedBlob ps)"
    by (induction ps) (simp_all add: onSoil_def blobInGrid_def seedBlob_def)
  moreover have "list_all (\<lambda>b. stepsSinceMeal b = Undefined) (map seedBlob ps)"
    by (induction ps) (simp_all add: seedBlob_def)
  ultimately show ?thesis
    using s unfolding bs map_blobPos_seedBlob
    by (simp add: seeded_def initialFoodCount_def initialBlobCount_def)
qed

lemma generateFood_loop_accepts:
  assumes "generateFood_loop rnd grid k foodArr attempts = Inr (ps, a', k')"
  shows "(\<exists>ys. ps = foodArr @ ys) \<and> attempts \<le> a' \<and> k' = k + 2 * (a' - attempts) \<and>
    (\<forall>i. i < a' - attempts \<and> onSoil grid (drawnCell rnd (k + 2 * i)) \<longrightarrow>
        drawnCell rnd (k + 2 * i) \<in> set ps) \<and>
    (\<forall>p. p \<in> set ps \<longrightarrow> p \<in> set foodArr \<or>
        (\<exists>i. i < a' - attempts \<and> p = drawnCell rnd (k + 2 * i) \<and> onSoil grid p))"
  using assms
proof (induction rnd grid k foodArr attempts rule: generateFood_loop.induct)
  case (1 rnd grid k foodArr attempts)
  show ?case
  proof (cases "length foodArr < initialFoodCount \<and> attempts < 10000")
    case False
    with "1.prems" have "ps = foodArr" "a' = attempts" "k' = k"
      by (simp_all add: generateFood_loop_stop)
    then show ?thesis by simp
  next
    case True
    define px where "px = randInt rnd k gridSize"
    define py where "py = randInt rnd (k + 1) gridSize"
    define acc where "acc c = (if c = Some Soil \<and> \<not> list_ex (atPos px py) foodArr
                   then foodArr @ [(px, py)] else foodArr)" for c
    have d0: "drawnCell rnd k = (px, py)" by (simp add: drawnCell_def px_def py_def)
    have g: "inGrid px py" unfolding px_def py_def by (rule randInt_gridSize)
    have unfold: "generateFood_loop rnd grid k foodArr attempts =
      (case readCell grid px py of Inl e \<Rightarrow> Inl e
       | Inr c \<Rightarrow> generateFood_loop rnd grid (k + 2) (acc c) (attempts + 1))"
      unfolding px_def py_def acc_def using True by (rule generateFood_loop_step)
    with "1.prems" obtain c where c: "readCell grid px py = Inr c"
      and rest: "generateFood_loop rnd grid (k + 2) (acc c) (attempts + 1) = Inr (ps, a', k')"
      by (auto split: sum.splits)
    have soil: "onSoil grid (px, py) \<longleftrightarrow> c = Some Soil"
      using g c by (simp add: onSoil_def)
    from "1.IH" [OF True px_def py_def c rest [unfolded acc_def]]
    have IH: "(\<exists>ys. ps = acc c @ ys)" "attempts + 1 \<le> a'"
        "k' = k + 2 + 2 * (a' - (attempts + 1))"
        "\<forall>i. i < a' - (attempts + 1) \<and> onSoil grid (drawnCell rnd (k + 2 + 2 * i)) \<longrightarrow>
            drawnCell rnd (k + 2 + 2 * i) \<in> set ps"
        "\<forall>p. p \<in> set ps \<longrightarrow> p \<in> set (acc c) \<or>
            (\<exists>i. i < a' - (attempts + 1) \<and> p = drawnCell rnd (k + 2 + 2 * i) \<and> onSoil grid p)"
      unfolding acc_def by blast+
    have pre: "\<exists>ys. ps = foodArr @ ys"
      using IH(1) by (auto simp: acc_def)
    have k': "k' = k + 2 * (a' - attempts)" and le: "attempts \<le> a'"
      using IH(2,3) by simp_all
    have first: "(px, py) \<in> set (acc c)" if "c = Some Soil"
      using that by (auto simp: acc_def list_ex_iff atPos_def)
    have fwd: "drawnCell rnd (k + 2 * i) \<in> set ps"
      if "i < a' - attempts" "onSoil grid (drawnCell rnd (k + 2 * i))" for i
    proof (cases i)
      case 0
      with that(2) d0 soil have "c = Some Soil" by simp
      from first [OF this] IH(1) 0 d0 show ?thesis by auto
    next
      case (Suc j)
      with that have "j < a' - (attempts + 1)" "onSoil grid (drawnCell rnd (k + 2 + 2 * j))"
        by simp_all
      with IH(4) Suc show ?thesis by simp
    qed
    have bwd: "p \<in> set foodArr \<or>
        (\<exists>i. i < a' - attempts \<and> p = drawnCell rnd (k + 2 * i) \<and> onSoil grid p)"
      if "p \<in> set ps" for p
    proof -
      from IH(5) that consider "p \<in> set (acc c)"
        | j where "j < a' - (attempts + 1)" "p = drawnCell rnd (k + 2 + 2 * j)" "onSoil grid p"
        by blast
      then show ?thesis
      proof cases
        case 1
        show ?thesis
        proof (cases "p \<in> set foodArr")
          case True
          then show ?thesis by simp
        next
          case False
          with 1 have "p = (px, py)" "c = Some Soil"
            by (auto simp: acc_def split: if_splits)
          with soil d0 IH(2) have "0 < a' - attempts \<and> p = drawnCell rnd (k + 2 * 0) \<and> onSoil grid p"
            by simp
          then show ?thesis by blast
        qed
      next
        case 2
        then have "Suc j < a' - attempts \<and> p = drawnCell rnd (k + 2 * Suc j) \<and> onSoil grid p"
          by simp
        then show ?thesis by blast
      qed
    qed
    from pre le k' fwd bwd show ?thesis by blast
  qed
qed

lemma generateFood_accepts:
  assumes "generateFood rnd k grid = Inr (ps, k')"
  shows "k \<le> k' \<and> even (k' - k) \<and> set ps = accepted rnd k k' grid"
proof -
  from assms obtain a' where
    loop: "generateFood_loop rnd grid k [] 0 = Inr (ps, a', k')"
    by (auto simp: generateFood_def split: sum.splits)
  from generateFood_loop_accepts [OF loop]
  have k': "k' = k + 2 * a'"
    and fwd: "\<forall>i. i < a' \<and> onSoil grid (drawnCell rnd (k + 2 * i)) \<longrightarrow>
        drawnCell rnd (k + 2 * i) \<in> set ps"
    and bwd: "\<forall>p. p \<in> set ps \<longrightarrow>
        (\<exists>i. i < a' \<and> p = drawnCell rnd (k + 2 * i) \<and> onSoil grid p)"
    by simp_all
  have "set ps = accepted rnd k k' grid"
    unfolding accepted_def k' using fwd bwd by auto
  with k' show ?thesis by simp
qed

lemma Math_random_scanDraws:
  "Math_random scanDraws j =
     (if even j then of_nat ((j div 2) mod 16) / 16 else of_nat ((j div 2) div 16 mod 16) / 16)"
proof -
  have "Rep_draw (Abs_draw (of_nat (a mod 16) / 16)) = of_nat (a mod 16) / 16" for a :: nat
  proof (rule Abs_draw_inverse)
    have "a mod 16 \<le> 15" by simp
    then have "(of_nat (a mod 16) :: rat) \<le> 15" by (metis of_nat_le_iff of_nat_numeral)
    then show "of_nat (a mod 16) / 16 \<in> {r :: rat. 0 \<le> r \<and> r \<le> 1 - 1 / 2 ^ 53}" by simp
  qed
  then show ?thesis by (simp add: Math_random_def scanDraws_def)
qed

lemma drawnCell_scanDraws:
  "drawnCell scanDraws (2 * i) =
     (25 * int (i mod 16) div 4, 25 * int (i div 16 mod 16) div 4)"
proof -
  have fl: "\<lfloor>toDouble (rat_of_nat a / 16 * rat_of_int gridSize)\<rfloor> = 25 * int a div 4"
    if "a < 16" for a
  proof -
    have p: "rat_of_nat a / 16 * rat_of_int gridSize = 25 * rat_of_nat a / 4"
      by (simp add: gridSize_def)
    from that have "a \<in> set [0..<16]" by simp
    with toDouble_quarters have d: "toDouble (25 * rat_of_nat a / 4) = 25 * rat_of_nat a / 4"
      by blast
    have "25 * rat_of_nat a / 4 = rat_of_int (25 * int a) / rat_of_int 4" by simp
    then have "\<lfloor>25 * rat_of_nat a / 4\<rfloor> = 25 * int a div 4"
      by (simp only: floor_divide_of_int_eq)
    then show ?thesis unfolding p d .
  qed
  have x: "randInt scanDraws (2 * i) gridSize = 25 * int (i mod 16) div 4"
    unfolding randInt_def Math_random_scanDraws using fl [of "i mod 16"] by simp
  have y: "randInt scanDraws (2 * i + 1) gridSize = 25 * int (i div 16 mod 16) div 4"
    unfolding randInt_def Math_random_scanDraws using fl [of "i div 16 mod 16"] by simp
  show ?thesis unfolding drawnCell_def x y ..
qed

lemma quarter_inj:
  fixes a b :: int
  assumes "25 * a div 4 = 25 * b div 4"
  shows "a = b"
proof -
  have a: "25 * a = 4 * (25 * a div 4) + 25 * a mod 4" by simp
  have b: "25 * b = 4 * (25 * b div 4) + 25 * b mod 4" by simp
  have ra: "0 \<le> 25 * a mod 4" "25 * a mod 4 < 4" by simp_all
  have rb: "0 \<le> 25 * b mod 4" "25 * b mod 4 < 4" by simp_all
  from a b ra rb assms show ?thesis by linarith
qed

lemma drawnCell_scanDraws_inj:
  assumes "i < 100" "j < 100" "drawnCell scanDraws (2 * i) = drawnCell scanDraws (2 * j)"
  shows "i = j"
proof -
  from assms(3) have a: "25 * int (i mod 16) div 4 = 25 * int (j mod 16) div 4"
    and b: "25 * int (i div 16 mod 16) div 4 = 25 * int (j div 16 mod 16) div 4"
    by (simp_all add: drawnCell_scanDraws)
  from quarter_inj [OF a] have m: "i mod 16 = j mod 16" by simp
  from quarter_inj [OF b] have "i div 16 mod 16 = j div 16 mod 16" by simp
  moreover have "i div 16 < 16" "j div 16 < 16" using assms(1,2) by simp_all
  ultimately have d: "i div 16 = j div 16" by simp
  have "i = 16 * (i div 16) + i mod 16" by simp
  also have "\<dots> = 16 * (j div 16) + j mod 16" by (simp only: m d)
  also have "\<dots> = j" by simp
  finally show ?thesis .
qed

lemma generateFood_loop_fresh:
  assumes "\<forall>i<n. onSoil grid (drawnCell rnd (k + 2 * i))"
    and "\<forall>i<n. \<forall>j<n. drawnCell rnd (k + 2 * i) = drawnCell rnd (k + 2 * j) \<longrightarrow> i = j"
    and "\<forall>i<n. drawnCell rnd (k + 2 * i) \<notin> set foodArr"
    and "length foodArr + n = initialFoodCount" "attempts + n \<le> 10000"
  shows "generateFood_loop rnd grid k foodArr attempts =
    Inr (foodArr @ map (\<lambda>i. drawnCell rnd (k + 2 * i)) [0..<n], attempts + n, k + 2 * n)"
  using assms
proof (induction n arbitrary: k foodArr attempts)
  case 0
  then have "\<not> (length foodArr < initialFoodCount \<and> attempts < 10000)" by simp
  then show ?case by (simp add: generateFood_loop_stop)
next
  case (Suc n)
  define p where "p = drawnCell rnd k"
  from Suc.prems(1) have soil: "onSoil grid p" by (auto simp: p_def dest: spec [of _ 0])
  from Suc.prems(3) have new: "p \<notin> set foodArr" by (auto simp: p_def dest: spec [of _ 0])
  from Suc.prems(4,5) have True: "length foodArr < initialFoodCount \<and> attempts < 10000"
    by simp
  have rc: "readCell grid (randInt rnd k gridSize) (randInt rnd (k + 1) gridSize) = Inr (Some Soil)"
    using soil by (simp add: onSoil_def p_def drawnCell_def)
  have nex: "\<not> list_ex (atPos (randInt rnd k gridSize) (randInt rnd (k + 1) gridSize)) foodArr"
    using new by (auto simp: list_ex_iff atPos_def p_def drawnCell_def)
  have step: "generateFood_loop rnd grid k foodArr attempts =
      generateFood_loop rnd grid (k + 2) (foodArr @ [p]) (attempts + 1)"
    unfolding generateFood_loop_step [OF True] rc using nex
    by (simp add: p_def drawnCell_def)
  have sh: "k + 2 + 2 * i = k + 2 * Suc i" for i by simp
  have 1: "\<forall>i<n. onSoil grid (drawnCell rnd (k + 2 + 2 * i))"
    using Suc.prems(1) unfolding sh by auto
  have 2: "\<forall>i<n. \<forall>j<n. drawnCell rnd (k + 2 + 2 * i) = drawnCell rnd (k + 2 + 2 * j) \<longrightarrow> i = j"
  proof (intro allI impI)
    fix i j assume "i < n" "j < n"
      "drawnCell rnd (k + 2 + 2 * i) = drawnCell rnd (k + 2 + 2 * j)"
    then have "Suc i < Suc n" "Suc j < Suc n"
      "drawnCell rnd (k + 2 * Suc i) = drawnCell rnd (k + 2 * Suc j)"
      by simp_all
    with Suc.prems(2) have "Suc i = Suc j" by blast
    then show "i = j" by simp
  qed
  have 3: "\<forall>i<n. drawnCell rnd (k + 2 + 2 * i) \<notin> set (foodArr @ [p])"
  proof (intro allI impI)
    fix i assume i: "i < n"
    then have "drawnCell rnd (k + 2 * Suc i) \<notin> set foodArr"
      using Suc.prems(3) by auto
    moreover have "drawnCell rnd (k + 2 * Suc i) \<noteq> p"
    proof
      assume "drawnCell rnd (k + 2 * Suc i) = p"
      then have "drawnCell rnd (k + 2 * Suc i) = drawnCell rnd (k + 2 * 0)" by (simp add: p_def)
      moreover have "Suc i < Suc n" "0 < Suc n" using i by simp_all
      ultimately have "Suc i = 0" using Suc.prems(2) by blast
      then show False by simp
    qed
    ultimately show "drawnCell rnd (k + 2 + 2 * i) \<notin> set (foodArr @ [p])"
      unfolding sh by simp
  qed
  have 4: "length (foodArr @ [p]) + n = initialFoodCount" using Suc.prems(4) by simp
  have 5: "attempts + 1 + n \<le> 10000" using Suc.prems(5) by simp
  have lst: "[p] @ map (\<lambda>i. drawnCell rnd (k + 2 + 2 * i)) [0..<n] =
      map (\<lambda>i. drawnCell rnd (k + 2 * i)) [0..<Suc n]"
  proof -
    have "[0..<Suc n] = 0 # map Suc [0..<n]"
      unfolding map_Suc_upt by (rule upt_conv_Cons) simp
    then have "map (\<lambda>i. drawnCell rnd (k + 2 * i)) [0..<Suc n] =
        drawnCell rnd (k + 2 * 0) # map (\<lambda>i. drawnCell rnd (k + 2 * Suc i)) [0..<n]"
      by (simp only: list.map map_map comp_def)
    then show ?thesis by (simp add: p_def)
  qed
  show ?case
    unfolding step Suc.IH [OF 1 2 3 4 5] using lst by simp
qed

lemma generateFood_scanDraws:
  "generateFood scanDraws 0 soilGrid =
     Inr (map (\<lambda>i. drawnCell scanDraws (2 * i)) [0..<100], 200)"
proof -
  have soil: "\<forall>i<100. onSoil soilGrid (drawnCell scanDraws (0 + 2 * i))"
  proof (intro allI impI)
    fix i :: nat
    show "onSoil soilGrid (drawnCell scanDraws (0 + 2 * i))"
      by (simp add: onSoil_def drawnCell_def randInt_gridSize readCell_soilGrid)
  qed
  have inj: "\<forall>i<100. \<forall>j<100. drawnCell scanDraws (0 + 2 * i) = drawnCell scanDraws (0 + 2 * j)
      \<longrightarrow> i = j"
  proof (intro allI impI)
    fix i j :: nat
    assume "i < 100" "j < 100"
      "drawnCell scanDraws (0 + 2 * i) = drawnCell scanDraws (0 + 2 * j)"
    then show "i = j" using drawnCell_scanDraws_inj [of i j] by simp
  qed
  have new: "\<forall>i<100. drawnCell scanDraws (0 + 2 * i) \<notin> set []"
    by simp
  have len: "length ([] :: food_item list) + 100 = initialFoodCount" "(0 :: nat) + 100 \<le> 10000"
    by (simp_all add: initialFoodCount_def)
  have f: "(\<lambda>i. drawnCell scanDraws (0 + 2 * i)) = (\<lambda>i. drawnCell scanDraws (2 * i))"
    by simp
  have n: "(0 :: nat) + 100 = 100" "(0 :: nat) + 2 * 100 = 200" by simp_all
  from generateFood_loop_fresh [OF soil inj new len]
  have "generateFood_loop scanDraws soilGrid 0 [] 0 =
    Inr (map (\<lambda>i. drawnCell scanDraws (2 * i)) [0..<100], 100, 200)"
    unfolding f n append_Nil .
  then show ?thesis
    unfolding generateFood_def by (simp only: sum.case prod.case)
qed


lemma accepted_empty: "accepted rnd k k grid = {}"
  by (simp add: accepted_def)

lemma accepted_step:
  "accepted rnd k (k + 2 + 2 * j) grid =
     (if onSoil grid (drawnCell rnd k) then {drawnCell rnd k} else {}) \<union>
     accepted rnd (k + 2) (k + 2 + 2 * j) grid"
proof (rule set_eqI)
  fix p
  have sh: "k + 2 + 2 * i = k + 2 * Suc i" for i by simp
  show "p \<in> accepted rnd k (k + 2 + 2 * j) grid \<longleftrightarrow>
    p \<in> (if onSoil grid (drawnCell rnd k) then {drawnCell rnd k} else {}) \<union>
      accepted rnd (k + 2) (k + 2 + 2 * j) grid"
  proof
    assume "p \<in> accepted rnd k (k + 2 + 2 * j) grid"
    then obtain i where i: "k + 2 * i < k + 2 + 2 * j" "p = drawnCell rnd (k + 2 * i)"
      "onSoil grid p"
      unfolding accepted_def by blast
    show "p \<in> (if onSoil grid (drawnCell rnd k) then {drawnCell rnd k} else {}) \<union>
      accepted rnd (k + 2) (k + 2 + 2 * j) grid"
    proof (cases i)
      case 0
      with i show ?thesis by simp
    next
      case (Suc m)
      with i have "k + 2 + 2 * m < k + 2 + 2 * j \<and> p = drawnCell rnd (k + 2 + 2 * m) \<and>
        onSoil grid p"
        by simp
      then have "p \<in> accepted rnd (k + 2) (k + 2 + 2 * j) grid"
        unfolding accepted_def by blast
      then show ?thesis by simp
    qed
  next
    assume "p \<in> (if onSoil grid (drawnCell rnd k) then {drawnCell rnd k} else {}) \<union>
      accepted rnd (k + 2) (k + 2 + 2 * j) grid"
    then consider "onSoil grid (drawnCell rnd k)" "p = drawnCell rnd k"
      | "p \<in> accepted rnd (k + 2) (k + 2 + 2 * j) grid"
      by (auto split: if_splits)
    then show "p \<in> accepted rnd k (k + 2 + 2 * j) grid"
    proof cases
      case 1
      then have "k + 2 * 0 < k + 2 + 2 * j \<and> p = drawnCell rnd (k + 2 * 0) \<and> onSoil grid p"
        by simp
      then show ?thesis unfolding accepted_def by blast
    next
      case 2
      then obtain m where "k + 2 + 2 * m < k + 2 + 2 * j" "p = drawnCell rnd (k + 2 + 2 * m)"
        "onSoil grid p"
        unfolding accepted_def by blast
      then have "k + 2 * Suc m < k + 2 + 2 * j \<and> p = drawnCell rnd (k + 2 * Suc m) \<and>
        onSoil grid p"
        by simp
      then show ?thesis unfolding accepted_def by blast
    qed
  qed
qed

lemma generateFood_loop_short:
  assumes "generateFood_loop rnd grid k foodArr attempts = Inr (ps, a', k')"
  shows "\<forall>i. i < a' - attempts \<longrightarrow>
    card (set foodArr \<union> accepted rnd k (k + 2 * i) grid) < initialFoodCount"
  using assms
proof (induction rnd grid k foodArr attempts rule: generateFood_loop.induct)
  case (1 rnd grid k foodArr attempts)
  show ?case
  proof (cases "length foodArr < initialFoodCount \<and> attempts < 10000")
    case False
    with "1.prems" have "a' = attempts"
      by (simp add: generateFood_loop_stop)
    then show ?thesis by simp
  next
    case True
    define px where "px = randInt rnd k gridSize"
    define py where "py = randInt rnd (k + 1) gridSize"
    define acc where "acc c = (if c = Some Soil \<and> \<not> list_ex (atPos px py) foodArr
                   then foodArr @ [(px, py)] else foodArr)" for c
    have d0: "drawnCell rnd k = (px, py)" by (simp add: drawnCell_def px_def py_def)
    have g: "inGrid px py" unfolding px_def py_def by (rule randInt_gridSize)
    have unfold: "generateFood_loop rnd grid k foodArr attempts =
      (case readCell grid px py of Inl e \<Rightarrow> Inl e
       | Inr c \<Rightarrow> generateFood_loop rnd grid (k + 2) (acc c) (attempts + 1))"
      unfolding px_def py_def acc_def using True by (rule generateFood_loop_step)
    with "1.prems" obtain c where c: "readCell grid px py = Inr c"
      and rest: "generateFood_loop rnd grid (k + 2) (acc c) (attempts + 1) = Inr (ps, a', k')"
      by (auto split: sum.splits)
    have soil: "onSoil grid (px, py) \<longleftrightarrow> c = Some Soil"
      using g c by (simp add: onSoil_def)
    from "1.IH" [OF True px_def py_def c rest [unfolded acc_def]]
    have IH: "\<forall>i. i < a' - (attempts + 1) \<longrightarrow>
        card (set (acc c) \<union> accepted rnd (k + 2) (k + 2 + 2 * i) grid) < initialFoodCount"
      unfolding acc_def .
    have acc: "set (acc c) = set foodArr \<union> (if c = Some Soil then {(px, py)} else {})"
      by (auto simp: acc_def list_ex_iff atPos_def)
    show ?thesis
    proof (intro allI impI)
      fix i assume i: "i < a' - attempts"
      show "card (set foodArr \<union> accepted rnd k (k + 2 * i) grid) < initialFoodCount"
      proof (cases i)
        case 0
        have "card (set foodArr) \<le> length foodArr" by (rule card_length)
        with True 0 show ?thesis by (simp add: accepted_empty)
      next
        case (Suc j)
        with i have "j < a' - (attempts + 1)" by simp
        with IH have "card (set (acc c) \<union> accepted rnd (k + 2) (k + 2 + 2 * j) grid)
          < initialFoodCount" by blast
        moreover have "set (acc c) \<union> accepted rnd (k + 2) (k + 2 + 2 * j) grid =
          set foodArr \<union> accepted rnd k (k + 2 + 2 * j) grid"
          unfolding acc accepted_step [of rnd k j grid] d0 soil by auto
        ultimately show ?thesis using Suc by simp
      qed
    qed
  qed
qed

lemma generateFood_short:
  assumes "generateFood rnd k grid = Inr (ps, k')"
  shows "\<forall>i. k + 2 * i < k' \<longrightarrow> card (accepted rnd k (k + 2 * i) grid) < initialFoodCount"
proof -
  from assms obtain a' where
    loop: "generateFood_loop rnd grid k [] 0 = Inr (ps, a', k')"
    by (auto simp: generateFood_def split: sum.splits)
  from generateFood_loop_accepts [OF loop] have k': "k' = k + 2 * a'" by simp
  from generateFood_loop_short [OF loop] show ?thesis unfolding k' by simp
qed

lemma generateFood_sampled:
  assumes "generateFood rnd k grid = Inr (ps, k')"
  shows "sampled rnd k k' grid initialFoodCount ps"
proof -
  from generateFood_accepts [OF assms]
  have a: "k \<le> k'" "even (k' - k)" "set ps = accepted rnd k k' grid" by blast+
  from generateFood_seeded [OF assms] have "k' \<le> k + 20000" by blast
  then have b: "k' - k \<le> 2 * 10000" by simp
  from generateFood_short [OF assms]
  have c: "\<forall>i. k + 2 * i < k' \<longrightarrow> card (accepted rnd k (k + 2 * i) grid) < initialFoodCount" .
  from a b c show ?thesis unfolding sampled_def by (intro conjI)
qed

lemma generateBlobs_sampled:
  assumes "generateBlobs rnd k grid = Inr (bs, k')"
  shows "sampled rnd k k' grid initialBlobCount (map blobPos bs)"
proof -
  from assms obtain ps where ps: "generateFood rnd k grid = Inr (ps, k')" and bs: "bs = map seedBlob ps"
    unfolding generateBlobs_generateFood by (auto split: sum.splits)
  have "initialBlobCount = initialFoodCount"
    by (simp add: initialFoodCount_def initialBlobCount_def)
  with generateFood_sampled [OF ps] show ?thesis
    unfolding bs map_blobPos_seedBlob by simp
qed

lemma generateFood_scanDraws_cells:
  "generateFood scanDraws 0 soilGrid =
     Inr (map (\<lambda>i. (25 * int (i mod 16) div 4, 25 * int (i div 16 mod 16) div 4)) [0..<100], 200)"
  unfolding generateFood_scanDraws drawnCell_scanDraws ..

section \<open>The first tick after seeding\<close>

lemma mapBlobs_unfed:
  assumes "mapBlobs rnd k newFood bs = Inr (bs', newFood', k')"
    and "list_all (\<lambda>b. stepsSinceMeal b = Undefined) bs"
  shows "list_all (\<lambda>b. stepsSinceMeal b = Num 0 \<or> stepsSinceMeal b = NaN) bs'"
  using assms
proof (induction bs arbitrary: k newFood bs')
  case Nil
  then show ?case by simp
next
  case (Cons b bs)
  from Cons.prems(1) obtain b1 bs1 fd1 k1 where
    step: "blobStep rnd k newFood b = Inr (b1, fd1, k1)" and
    rest: "mapBlobs rnd k1 fd1 bs = Inr (bs1, newFood', k')" and
    eq: "bs' = b1 # bs1"
    by (rule mapBlobs_ConsE)
  from Cons.prems(2) have u: "stepsSinceMeal b = Undefined"
    and tl: "list_all (\<lambda>b. stepsSinceMeal b = Undefined) bs"
    by simp_all
  from blobStep_food [OF step] u have "stepsSinceMeal b1 = Num 0 \<or> stepsSinceMeal b1 = NaN"
    by auto
  with Cons.IH [OF rest tl] eq show ?case by simp
qed

lemma cull_unfed:
  "list_all (\<lambda>b. stepsSinceMeal b = Num 0 \<or> stepsSinceMeal b = NaN) bs \<Longrightarrow>
   cull bs = fed bs \<and> list_all (\<lambda>b. stepsSinceMeal b = Num 0) (cull bs)"
  by (induction bs) (auto simp: cull_def fed_def maxStepsWithoutFood_def)

lemma initialState_InrE:
  assumes "initialState rnd k grid = Inr (s, k2)"
  obtains k1 where
    "generateFood rnd k grid = Inr (food s, k1)"
    "generateBlobs rnd k1 grid = Inr (blobs s, k2)"
  using assms by (auto simp: initialState_def split: sum.splits)

section \<open>The cull on counters that are numbers\<close>

text \<open>
  Every blob a tick leaves has a counter below the limit; a blob whose counter is the
  number \<open>n\<close> and that does not eat stays exactly when \<open>n + 1\<close> is below the limit.
\<close>

lemma cull_keeps:
  "b \<in> set (cull bs) \<longleftrightarrow>
     b \<in> set bs \<and> (\<exists>n. stepsSinceMeal b = Num n \<and> n < maxStepsWithoutFood)"
  by (cases "stepsSinceMeal b") (auto simp: cull_def)

lemma advance_below_limit:
  assumes "advance rnd k s = Inr (s', k')" "b \<in> set (blobs s')"
  shows "\<exists>n. stepsSinceMeal b = Num n \<and> n < maxStepsWithoutFood"
proof -
  from assms(1) obtain newBlobs where "blobs s' = cull newBlobs"
    by (rule advance_InrE)
  with assms(2) show ?thesis by (simp add: cull_keeps)
qed

lemma lone_blob_starves_at_limit:
  assumes adv: "advance rnd k \<lparr>food = [], blobs = [b]\<rparr> = Inr (s', k')"
    and n: "stepsSinceMeal b = Num n"
  shows "if n + 1 < maxStepsWithoutFood
         then \<exists>b'. blobs s' = [b'] \<and> stepsSinceMeal b' = Num (n + 1)
         else blobs s' = []"
proof -
  from adv obtain newBlobs where
    m: "mapBlobs rnd k [] [b] = Inr (newBlobs, food s', k')" and c: "blobs s' = cull newBlobs"
    by (rule advance_InrE) simp
  from m obtain b' fd1 k1 where step: "blobStep rnd k [] b = Inr (b', fd1, k1)"
    and nb: "newBlobs = [b']"
    by (auto split: sum.splits)
  from blobStep_food [OF step] n have "stepsSinceMeal b' = Num (n + 1)" by simp
  with c nb show ?thesis by (simp add: cull_def)
qed

section \<open>Claims about the tick\<close>

lemma blobStep_example:
  "blobStep zeroDraws 0 [(5, 6)] \<lparr>blob_x = 5, blob_y = 5, stepsSinceMeal = Num 3\<rparr> =
     Inr (\<lparr>blob_x = 5, blob_y = 6, stepsSinceMeal = Num 0\<rparr>, [], 1)"
  by (simp add: blobStep_def Let_def atPos_def neighbors_def gridSize_def randInt_zeroDraws
      splice1_def)

text \<open>
  C8 (eat in place). When a blob is processed, the food array is the one the blobs before
  it in the sequence have left. If the blob's coordinate is in that array, the callback
  returns the blob at the same coordinate with \<open>stepsSinceMeal = 0\<close>, removes one item
  with that coordinate from the array and makes no draw (the movement steps are
  skipped), and the rest of the sequence goes on with the array so shrunk.
\<close>

theorem eat_in_place:
  assumes "mapBlobs rnd k food0 earlier = Inr (earlier', newFood, k1)"
    and "(blob_x b, blob_y b) \<in> set newFood"
  shows "blobStep rnd k1 newFood b =
      Inr (\<lparr>blob_x = blob_x b, blob_y = blob_y b, stepsSinceMeal = Num 0\<rparr>,
           remove1 (blob_x b, blob_y b) newFood, k1) \<and>
    mapBlobs rnd k food0 (earlier @ b # later) =
      (case mapBlobs rnd k1 (remove1 (blob_x b, blob_y b) newFood) later of
         Inl e \<Rightarrow> Inl e
       | Inr (later', food2, k2) \<Rightarrow>
           Inr (earlier' @ \<lparr>blob_x = blob_x b, blob_y = blob_y b, stepsSinceMeal = Num 0\<rparr> # later',
                food2, k2))"
proof -
  have here: "blobStep rnd k1 newFood b =
      Inr (\<lparr>blob_x = blob_x b, blob_y = blob_y b, stepsSinceMeal = Num 0\<rparr>,
           remove1 (blob_x b, blob_y b) newFood, k1)"
    using assms(2) by (rule blobStep_eats_here)
  show ?thesis
    unfolding mapBlobs_append assms(1) using here by (simp split: sum.splits)
qed

theorem eat_in_place_witness:
  "mapBlobs zeroDraws 0 [(1, 1), (2, 2)] [\<lparr>blob_x = 1, blob_y = 1, stepsSinceMeal = Num 3\<rparr>] =
     Inr ([\<lparr>blob_x = 1, blob_y = 1, stepsSinceMeal = Num 0\<rparr>], [(2, 2)], 0) \<and>
   blobStep zeroDraws 0 [(2, 2)] \<lparr>blob_x = 2, blob_y = 2, stepsSinceMeal = Num 7\<rparr> =
     Inr (\<lparr>blob_x = 2, blob_y = 2, stepsSinceMeal = Num 0\<rparr>, [], 0) \<and>
   mapBlobs zeroDraws 0 [(1, 1), (2, 2)]
     [\<lparr>blob_x = 1, blob_y = 1, stepsSinceMeal = Num 3\<rparr>,
      \<lparr>blob_x = 2, blob_y = 2, stepsSinceMeal = Num 7\<rparr>] =
     Inr ([\<lparr>blob_x = 1, blob_y = 1, stepsSinceMeal = Num 0\<rparr>,
           \<lparr>blob_x = 2, blob_y = 2, stepsSinceMeal = Num 0\<rparr>], [], 0)"
proof -
  have h1: "mapBlobs zeroDraws 0 [(1, 1), (2, 2)]
      [\<lparr>blob_x = 1, blob_y = 1, stepsSinceMeal = Num 3\<rparr>] =
     Inr ([\<lparr>blob_x = 1, blob_y = 1, stepsSinceMeal = Num 0\<rparr>], [(2, 2)], 0)"
    by (simp add: blobStep_def Let_def atPos_def splice1_def)
  have h2: "(blob_x \<lparr>blob_x = 2, blob_y = 2, stepsSinceMeal = Num 7\<rparr>,
             blob_y \<lparr>blob_x = 2, blob_y = 2, stepsSinceMeal = Num 7\<rparr>) \<in> set [(2, 2)]"
    by simp
  from eat_in_place [OF h1 h2, of "[]"] h1 show ?thesis by simp
qed

text \<open>
  C9 (movement bound, in-bounds invariant). The callback returns for every blob inside
  the grid. Whenever it returns, the blob's coordinate has changed by at most 1 in each
  axis, not at all when the blob's coordinate held food, and otherwise by one of the at
  most 8 candidate offsets, each of which leads inside the grid; a blob inside the grid
  stays inside. So it is for every blob of the sequence in one tick.
\<close>

theorem movement_bound:
  "(blobInGrid b \<longrightarrow> (\<exists>r. blobStep rnd k newFood b = Inr r)) \<and>
   (\<forall>b' newFood' k'. blobStep rnd k newFood b = Inr (b', newFood', k') \<longrightarrow>
      \<bar>blob_x b' - blob_x b\<bar> \<le> 1 \<and> \<bar>blob_y b' - blob_y b\<bar> \<le> 1 \<and>
      ((blob_x b, blob_y b) \<in> set newFood \<longrightarrow> blob_x b' = blob_x b \<and> blob_y b' = blob_y b) \<and>
      ((blob_x b, blob_y b) \<notin> set newFood \<longrightarrow>
         (blob_x b' - blob_x b, blob_y b' - blob_y b) \<in> set (neighbors (blob_x b) (blob_y b)) \<and>
         length (neighbors (blob_x b) (blob_y b)) \<le> 8 \<and> blobInGrid b') \<and>
      (blobInGrid b \<longrightarrow> blobInGrid b')) \<and>
   (\<forall>bs' newFood' k'. mapBlobs rnd k newFood bs = Inr (bs', newFood', k') \<longrightarrow>
      list_all2 (\<lambda>b b'. oneStep b b' \<and> (blobInGrid b \<longrightarrow> blobInGrid b')) bs bs')"
proof (intro conjI allI impI)
  assume "blobInGrid b"
  then show "\<exists>r. blobStep rnd k newFood b = Inr r"
    unfolding blobInGrid_def by (rule blobStep_returns)
next
  fix b' newFood' k'
  assume r: "blobStep rnd k newFood b = Inr (b', newFood', k')"
  from blobStep_oneStep [OF r]
  show "\<bar>blob_x b' - blob_x b\<bar> \<le> 1" "\<bar>blob_y b' - blob_y b\<bar> \<le> 1"
    by (simp_all add: oneStep_def)
  { assume "blobInGrid b"
    with blobStep_oneStep [OF r] show "blobInGrid b'" by simp }
  { assume "(blob_x b, blob_y b) \<in> set newFood"
    with r show "blob_x b' = blob_x b" "blob_y b' = blob_y b"
      by (auto simp: blobStep_eats_here) }
  { assume "(blob_x b, blob_y b) \<notin> set newFood"
    from blobStep_moves [OF r this]
    show mv: "(blob_x b' - blob_x b, blob_y b' - blob_y b) \<in> set (neighbors (blob_x b) (blob_y b))"
      by simp
    show "length (neighbors (blob_x b) (blob_y b)) \<le> 8" by (rule neighbors_length)
    from mv show "blobInGrid b'" unfolding neighbors_mem by (simp add: blobInGrid_def) }
next
  fix bs' newFood' k'
  assume "mapBlobs rnd k newFood bs = Inr (bs', newFood', k')"
  then show "list_all2 (\<lambda>b b'. oneStep b b' \<and> (blobInGrid b \<longrightarrow> blobInGrid b')) bs bs'"
    by (rule mapBlobs_oneStep)
qed

theorem movement_bound_witness:
  "blobInGrid \<lparr>blob_x = 5, blob_y = 5, stepsSinceMeal = Num 3\<rparr> \<and>
   blobStep zeroDraws 0 [(5, 6)] \<lparr>blob_x = 5, blob_y = 5, stepsSinceMeal = Num 3\<rparr> =
     Inr (\<lparr>blob_x = 5, blob_y = 6, stepsSinceMeal = Num 0\<rparr>, [], 1) \<and>
   \<bar>5 - blob_x \<lparr>blob_x = 5, blob_y = 5, stepsSinceMeal = Num 3\<rparr>\<bar> \<le> 1 \<and>
   \<bar>6 - blob_y \<lparr>blob_x = 5, blob_y = 5, stepsSinceMeal = Num 3\<rparr>\<bar> \<le> 1 \<and>
   blobInGrid \<lparr>blob_x = 5, blob_y = 6, stepsSinceMeal = Num 0\<rparr> \<and>
   (blob_x \<lparr>blob_x = 5, blob_y = 6, stepsSinceMeal = Num 7\<rparr>,
    blob_y \<lparr>blob_x = 5, blob_y = 6, stepsSinceMeal = Num 7\<rparr>) \<in> set [(5, 6)] \<and>
   blobStep zeroDraws 0 [(5, 6)] \<lparr>blob_x = 5, blob_y = 6, stepsSinceMeal = Num 7\<rparr> =
     Inr (\<lparr>blob_x = 5, blob_y = 6, stepsSinceMeal = Num 0\<rparr>, [], 0) \<and>
   mapBlobs zeroDraws 0 [(5, 6)] [\<lparr>blob_x = 5, blob_y = 5, stepsSinceMeal = Num 3\<rparr>] =
     Inr ([\<lparr>blob_x = 5, blob_y = 6, stepsSinceMeal = Num 0\<rparr>], [], 1) \<and>
   list_all2 (\<lambda>b b'. oneStep b b' \<and> (blobInGrid b \<longrightarrow> blobInGrid b'))
     [\<lparr>blob_x = 5, blob_y = 5, stepsSinceMeal = Num 3\<rparr>]
     [\<lparr>blob_x = 5, blob_y = 6, stepsSinceMeal = Num 0\<rparr>]"
proof -
  have g: "blobInGrid \<lparr>blob_x = 5, blob_y = 5, stepsSinceMeal = Num 3\<rparr>"
    by (simp add: blobInGrid_def inGrid_def gridSize_def)
  have stay: "blobStep zeroDraws 0 [(5, 6)] \<lparr>blob_x = 5, blob_y = 6, stepsSinceMeal = Num 7\<rparr> =
     Inr (\<lparr>blob_x = 5, blob_y = 6, stepsSinceMeal = Num 0\<rparr>, [], 0)"
    by (simp add: blobStep_def Let_def atPos_def splice1_def)
  have m: "mapBlobs zeroDraws 0 [(5, 6)] [\<lparr>blob_x = 5, blob_y = 5, stepsSinceMeal = Num 3\<rparr>] =
     Inr ([\<lparr>blob_x = 5, blob_y = 6, stepsSinceMeal = Num 0\<rparr>], [], 1)"
    by (simp add: blobStep_example)
  from movement_bound [of "\<lparr>blob_x = 5, blob_y = 5, stepsSinceMeal = Num 3\<rparr>" zeroDraws 0
      "[(5, 6)]" "[\<lparr>blob_x = 5, blob_y = 5, stepsSinceMeal = Num 3\<rparr>]"]
    movement_bound [of "\<lparr>blob_x = 5, blob_y = 6, stepsSinceMeal = Num 7\<rparr>" zeroDraws 0
      "[(5, 6)]" "[]"]
    g blobStep_example stay m
  show ?thesis by simp
qed

text \<open>
  C4 (tick conservation). For every state, \<open>advance\<close> returns when every blob is inside
  the grid, and whenever it returns: the food array is no longer than before, nothing
  is added to it, and the items removed from it are matched, one for one, by the
  coordinates of blobs emitted with \<open>stepsSinceMeal = 0\<close>. When no counter of the state
  is \<open>-1\<close> (counters are absent or count from 0), these are all the blobs emitted with
  \<open>stepsSinceMeal = 0\<close>, and their number is the number of items removed.
\<close>

theorem tick_conservation:
  "(list_all blobInGrid (blobs s) \<longrightarrow> (\<exists>r. advance rnd k s = Inr r)) \<and>
   (\<forall>s' k'. advance rnd k s = Inr (s', k') \<longrightarrow>
      length (food s') \<le> length (food s) \<and>
      mset (food s') \<subseteq># mset (food s) \<and>
      mset (food s) \<subseteq># mset (food s') + mset (map blobPos (fed (blobs s'))) \<and>
      (Num (-1) \<notin> stepsSinceMeal ` set (blobs s) \<longrightarrow>
         mset (food s) = mset (food s') + mset (map blobPos (fed (blobs s'))) \<and>
         length (food s) - length (food s') = length (fed (blobs s'))))"
proof (intro conjI allI impI)
  assume "list_all blobInGrid (blobs s)"
  from mapBlobs_returns [OF this, of rnd k "food s"]
  show "\<exists>r. advance rnd k s = Inr r"
    by (auto simp: advance_def)
next
  fix s' k'
  assume r: "advance rnd k s = Inr (s', k')"
  then obtain newBlobs where
    m: "mapBlobs rnd k (food s) (blobs s) = Inr (newBlobs, food s', k')" and
    c: "blobs s' = cull newBlobs"
    by (rule advance_InrE)
  from mapBlobs_food_sub [OF m]
  show sub: "mset (food s') \<subseteq># mset (food s)"
    and "mset (food s) \<subseteq># mset (food s') + mset (map blobPos (fed (blobs s')))"
    by (simp_all add: c fed_cull)
  from size_mset_mono [OF sub] show "length (food s') \<le> length (food s)"
    by simp
  assume "Num (-1) \<notin> stepsSinceMeal ` set (blobs s)"
  from mapBlobs_food [OF m this]
  show ms: "mset (food s) = mset (food s') + mset (map blobPos (fed (blobs s')))"
    by (simp add: c fed_cull)
  from arg_cong [OF ms, of size]
  show "length (food s) - length (food s') = length (fed (blobs s'))"
    by simp
qed

theorem tick_conservation_witness:
  "list_all blobInGrid
     (blobs \<lparr>food = [(5, 6)], blobs = [\<lparr>blob_x = 5, blob_y = 5, stepsSinceMeal = Num 3\<rparr>]\<rparr>) \<and>
   Num (-1) \<notin> stepsSinceMeal `
     set (blobs \<lparr>food = [(5, 6)], blobs = [\<lparr>blob_x = 5, blob_y = 5, stepsSinceMeal = Num 3\<rparr>]\<rparr>) \<and>
   advance zeroDraws 0
     \<lparr>food = [(5, 6)], blobs = [\<lparr>blob_x = 5, blob_y = 5, stepsSinceMeal = Num 3\<rparr>]\<rparr> =
     Inr (\<lparr>food = [], blobs = [\<lparr>blob_x = 5, blob_y = 6, stepsSinceMeal = Num 0\<rparr>]\<rparr>, 1) \<and>
   length (food \<lparr>food = [(5, 6)], blobs = [\<lparr>blob_x = 5, blob_y = 5, stepsSinceMeal = Num 3\<rparr>]\<rparr>)
     - length ([] :: food_item list) =
   length (fed [\<lparr>blob_x = 5, blob_y = 6, stepsSinceMeal = Num 0\<rparr>])"
proof -
  have g: "list_all blobInGrid
     (blobs \<lparr>food = [(5, 6)], blobs = [\<lparr>blob_x = 5, blob_y = 5, stepsSinceMeal = Num 3\<rparr>]\<rparr>)"
    by (simp add: blobInGrid_def inGrid_def gridSize_def)
  have h: "Num (-1) \<notin> stepsSinceMeal `
     set (blobs \<lparr>food = [(5, 6)], blobs = [\<lparr>blob_x = 5, blob_y = 5, stepsSinceMeal = Num 3\<rparr>]\<rparr>)"
    by simp
  have a: "advance zeroDraws 0
     \<lparr>food = [(5, 6)], blobs = [\<lparr>blob_x = 5, blob_y = 5, stepsSinceMeal = Num 3\<rparr>]\<rparr> =
     Inr (\<lparr>food = [], blobs = [\<lparr>blob_x = 5, blob_y = 6, stepsSinceMeal = Num 0\<rparr>]\<rparr>, 1)"
    by (simp add: advance_def blobStep_example cull_def maxStepsWithoutFood_def)
  from tick_conservation [of "\<lparr>food = [(5, 6)],
      blobs = [\<lparr>blob_x = 5, blob_y = 5, stepsSinceMeal = Num 3\<rparr>]\<rparr>" zeroDraws 0] g h a
  show ?thesis by simp
qed

section \<open>Claims about seeding\<close>

text \<open>
  C10 (seeding constraints). Given a grid of at least \<open>gridSize\<close> rows, the food and
  the blob seeding functions return, never throw. Whatever they return, every coordinate
  is inside the grid on a cell that reads soil, the coordinates are pairwise distinct,
  there are at most 100 of them, and there are exactly 100 unless all 10000 attempts
  (two draws each) were made: exhaustion gives a shorter array, not an error. The
  draws consumed are those of whole attempts, at most 10000 of them; the coordinates
  returned are exactly the soil cells those attempts drew, so that an attempt whose
  cell reads soil accepts it unless it is in the array already; and an attempt is
  made only while fewer than 100 cells have been accepted.
\<close>

theorem seeding_constraints:
  "(gridSize \<le> int (length grid) \<longrightarrow>
      (\<exists>ps k'. generateFood rnd k grid = Inr (ps, k')) \<and>
      (\<exists>bs k'. generateBlobs rnd k grid = Inr (bs, k'))) \<and>
   (\<forall>ps k'. generateFood rnd k grid = Inr (ps, k') \<longrightarrow>
      seeded grid initialFoodCount ps (k' - k) \<and>
      sampled rnd k k' grid initialFoodCount ps) \<and>
   (\<forall>bs k'. generateBlobs rnd k grid = Inr (bs, k') \<longrightarrow>
      seeded grid initialBlobCount (map blobPos bs) (k' - k) \<and>
      sampled rnd k k' grid initialBlobCount (map blobPos bs))"
proof (intro conjI allI impI)
  assume rows: "gridSize \<le> int (length grid)"
  then show "\<exists>ps k'. generateFood rnd k grid = Inr (ps, k')"
    by (rule generateFood_returns)
  then show "\<exists>bs k'. generateBlobs rnd k grid = Inr (bs, k')"
    unfolding generateBlobs_generateFood by auto
next
  fix ps k'
  assume "generateFood rnd k grid = Inr (ps, k')"
  from generateFood_seeded [OF this] show "seeded grid initialFoodCount ps (k' - k)"
    by simp
next
  fix ps k'
  assume "generateFood rnd k grid = Inr (ps, k')"
  then show "sampled rnd k k' grid initialFoodCount ps"
    by (rule generateFood_sampled)
next
  fix bs k'
  assume "generateBlobs rnd k grid = Inr (bs, k')"
  from generateBlobs_seeded [OF this] show "seeded grid initialBlobCount (map blobPos bs) (k' - k)"
    by simp
next
  fix bs k'
  assume "generateBlobs rnd k grid = Inr (bs, k')"
  then show "sampled rnd k k' grid initialBlobCount (map blobPos bs)"
    by (rule generateBlobs_sampled)
qed

theorem seeding_constraints_witness:
  "gridSize \<le> int (length soilGrid) \<and>
   generateFood scanDraws 0 soilGrid =
     Inr (map (\<lambda>i. (25 * int (i mod 16) div 4, 25 * int (i div 16 mod 16) div 4)) [0..<100],
          200) \<and>
   generateBlobs scanDraws 0 soilGrid =
     Inr (map seedBlob
            (map (\<lambda>i. (25 * int (i mod 16) div 4, 25 * int (i div 16 mod 16) div 4)) [0..<100]),
          200) \<and>
   length (map (\<lambda>i. (25 * int (i mod 16) div 4, 25 * int (i div 16 mod 16) div 4)) [0..<100])
     = 100 \<and>
   map (\<lambda>i. (25 * int (i mod 16) div 4, 25 * int (i div 16 mod 16) div 4)) [0..<100] ! 17
     = (6, 6) \<and>
   seeded soilGrid initialFoodCount
     (map (\<lambda>i. (25 * int (i mod 16) div 4, 25 * int (i div 16 mod 16) div 4)) [0..<100])
     (200 - 0) \<and>
   sampled scanDraws 0 200 soilGrid initialFoodCount
     (map (\<lambda>i. (25 * int (i mod 16) div 4, 25 * int (i div 16 mod 16) div 4)) [0..<100]) \<and>
   seeded soilGrid initialBlobCount
     (map (\<lambda>i. (25 * int (i mod 16) div 4, 25 * int (i div 16 mod 16) div 4)) [0..<100])
     (200 - 0) \<and>
   sampled scanDraws 0 200 soilGrid initialBlobCount
     (map (\<lambda>i. (25 * int (i mod 16) div 4, 25 * int (i div 16 mod 16) div 4)) [0..<100]) \<and>
   generateFood zeroDraws 0 soilGrid = Inr ([(0, 0)], 20000) \<and>
   generateBlobs zeroDraws 0 soilGrid = Inr (map seedBlob [(0, 0)], 20000) \<and>
   seeded soilGrid initialFoodCount [(0, 0)] (20000 - 0) \<and>
   sampled zeroDraws 0 20000 soilGrid initialFoodCount [(0, 0)] \<and>
   seeded soilGrid initialBlobCount [(0, 0)] (20000 - 0) \<and>
   sampled zeroDraws 0 20000 soilGrid initialBlobCount [(0, 0)]"
proof -
  define cells where
    "cells = map (\<lambda>i. (25 * int (i mod 16) div 4, 25 * int (i div 16 mod 16) div 4)) [0..<100]"
  have rows: "gridSize \<le> int (length soilGrid)"
    by (simp add: gridSize_def soilGrid_def)
  have f: "generateFood scanDraws 0 soilGrid = Inr (cells, 200)"
    unfolding cells_def by (rule generateFood_scanDraws_cells)
  have b: "generateBlobs scanDraws 0 soilGrid = Inr (map seedBlob cells, 200)"
    unfolding generateBlobs_generateFood f by simp
  have l: "length cells = 100" "cells ! 17 = (6, 6)"
    by (simp_all add: cells_def)
  have f0: "generateFood zeroDraws 0 soilGrid = Inr ([(0, 0)], 20000)"
    using generateFood_soilGrid_constant [of 0 zeroDraws 0] by (simp add: randInt_zeroDraws)
  have b0: "generateBlobs zeroDraws 0 soilGrid = Inr (map seedBlob [(0, 0)], 20000)"
    unfolding generateBlobs_generateFood f0 by simp
  have p: "map blobPos (map seedBlob cells) = cells"
    "map blobPos (map seedBlob [(0, 0)]) = [(0, 0)]"
    by (rule map_blobPos_seedBlob)+
  from seeding_constraints [of soilGrid scanDraws 0] f b
  have 1: "seeded soilGrid initialFoodCount cells (200 - 0)"
    "sampled scanDraws 0 200 soilGrid initialFoodCount cells"
    "seeded soilGrid initialBlobCount (map blobPos (map seedBlob cells)) (200 - 0)"
    "sampled scanDraws 0 200 soilGrid initialBlobCount (map blobPos (map seedBlob cells))"
    by blast+
  from seeding_constraints [of soilGrid zeroDraws 0] f0 b0
  have 2: "seeded soilGrid initialFoodCount [(0, 0)] (20000 - 0)"
    "sampled zeroDraws 0 20000 soilGrid initialFoodCount [(0, 0)]"
    "seeded soilGrid initialBlobCount (map blobPos (map seedBlob [(0, 0)])) (20000 - 0)"
    "sampled zeroDraws 0 20000 soilGrid initialBlobCount (map blobPos (map seedBlob [(0, 0)]))"
    by blast+
  from rows f b l 1 [unfolded p] f0 b0 2 [unfolded p] show ?thesis
    unfolding cells_def by (intro conjI)
qed

text \<open>
  C1 (blobs at seeding). On the all-soil grid, with every draw \<open>0\<close>, \<open>generateBlobs\<close>
  returns one blob, at \<open>(0, 0)\<close>; its \<open>stepsSinceMeal\<close> is \<^verbatim>\<open>undefined\<close>, not \<open>0\<close>.
\<close>

theorem generateBlobs_omits_stepsSinceMeal:
  "generateBlobs zeroDraws 0 soilGrid =
     Inr ([\<lparr>blob_x = 0, blob_y = 0, stepsSinceMeal = Undefined\<rparr>], 20000)"
  using generateBlobs_soilGrid_constant [of 0 zeroDraws 0]
  by (simp add: randInt_zeroDraws)

text \<open>
  C2 (the first tick after seeding). Given a grid of at least \<open>gridSize\<close> rows, seeding
  returns a state. In the state it returns no blob has a \<open>stepsSinceMeal\<close>; the first
  tick on it returns, and every blob left in the sequence after that tick has
  \<open>stepsSinceMeal = 0\<close>. The blobs left sit, one for one, on the coordinates of the
  food items eaten in the tick: a seeded blob that did not eat has been removed by the
  cull.
\<close>

theorem first_tick_cull:
  "(gridSize \<le> int (length grid) \<longrightarrow> (\<exists>s k1. initialState rnd k grid = Inr (s, k1))) \<and>
   (\<forall>s k1. initialState rnd k grid = Inr (s, k1) \<longrightarrow>
      list_all (\<lambda>b. stepsSinceMeal b = Undefined) (blobs s) \<and>
      (\<exists>r. advance rnd' k' s = Inr r) \<and>
      (\<forall>s' k2. advance rnd' k' s = Inr (s', k2) \<longrightarrow>
         list_all (\<lambda>b. stepsSinceMeal b = Num 0) (blobs s') \<and>
         mset (food s) = mset (food s') + mset (map blobPos (blobs s')) \<and>
         length (blobs s') = length (food s) - length (food s')))"
proof (intro conjI allI impI)
  assume rows: "gridSize \<le> int (length grid)"
  from generateFood_returns [OF rows] obtain ps k1 where
    f: "generateFood rnd k grid = Inr (ps, k1)" by blast
  from generateFood_returns [OF rows] obtain ps' k2 where
    "generateFood rnd k1 grid = Inr (ps', k2)" by blast
  then have "generateBlobs rnd k1 grid = Inr (map seedBlob ps', k2)"
    unfolding generateBlobs_generateFood by simp
  with f show "\<exists>s k1. initialState rnd k grid = Inr (s, k1)"
    by (simp add: initialState_def)
next
  fix s k1
  assume init: "initialState rnd k grid = Inr (s, k1)"
  then obtain k0 where b: "generateBlobs rnd k0 grid = Inr (blobs s, k1)"
    by (rule initialState_InrE)
  from generateBlobs_seeded [OF b]
  have undef: "list_all (\<lambda>b. stepsSinceMeal b = Undefined) (blobs s)"
    and inside: "list_all blobInGrid (blobs s)"
    by simp_all
  show "list_all (\<lambda>b. stepsSinceMeal b = Undefined) (blobs s)" by (rule undef)
  from mapBlobs_returns [OF inside, of rnd' k' "food s"]
  show "\<exists>r. advance rnd' k' s = Inr r"
    by (auto simp: advance_def)
  fix s' k2
  assume adv: "advance rnd' k' s = Inr (s', k2)"
  then obtain newBlobs where
    m: "mapBlobs rnd' k' (food s) (blobs s) = Inr (newBlobs, food s', k2)" and
    c: "blobs s' = cull newBlobs"
    by (rule advance_InrE)
  from cull_unfed [OF mapBlobs_unfed [OF m undef]]
  have fedc: "cull newBlobs = fed newBlobs"
    and zero: "list_all (\<lambda>b. stepsSinceMeal b = Num 0) (cull newBlobs)"
    by blast+
  from zero c show "list_all (\<lambda>b. stepsSinceMeal b = Num 0) (blobs s')" by simp
  from undef have "Num (-1) \<notin> stepsSinceMeal ` set (blobs s)"
    by (auto simp: list_all_iff)
  from mapBlobs_food [OF m this] c fedc
  show ms: "mset (food s) = mset (food s') + mset (map blobPos (blobs s'))" by simp
  from arg_cong [OF ms, of size]
  show "length (blobs s') = length (food s) - length (food s')" by simp
qed

theorem first_tick_cull_witness:
  "gridSize \<le> int (length soilGrid) \<and>
   initialState lateHalfDraws 0 soilGrid =
     Inr (\<lparr>food = [(0, 0)], blobs = [\<lparr>blob_x = 50, blob_y = 50, stepsSinceMeal = Undefined\<rparr>]\<rparr>,
          40000) \<and>
   advance lateHalfDraws 40000
     \<lparr>food = [(0, 0)], blobs = [\<lparr>blob_x = 50, blob_y = 50, stepsSinceMeal = Undefined\<rparr>]\<rparr> =
     Inr (\<lparr>food = [(0, 0)], blobs = []\<rparr>, 40001) \<and>
   length (blobs \<lparr>food = [(0, 0)], blobs = []\<rparr>) =
     length (food \<lparr>food = [(0, 0)],
                   blobs = [\<lparr>blob_x = 50, blob_y = 50, stepsSinceMeal = Undefined\<rparr>]\<rparr>) -
     length (food \<lparr>food = [(0, 0)], blobs = ([] :: blob list)\<rparr>)"
proof -
  have rows: "gridSize \<le> int (length soilGrid)"
    by (simp add: gridSize_def soilGrid_def)
  have f: "generateFood lateHalfDraws 0 soilGrid = Inr ([(0, 0)], 20000)"
    using generateFood_soilGrid_constant [of 0 lateHalfDraws 0]
    by (simp add: randInt_lateHalfDraws gridSize_def)
  have b: "generateBlobs lateHalfDraws 20000 soilGrid =
      Inr ([\<lparr>blob_x = 50, blob_y = 50, stepsSinceMeal = Undefined\<rparr>], 40000)"
    using generateBlobs_soilGrid_constant [of 20000 lateHalfDraws 50]
    by (simp add: randInt_lateHalfDraws gridSize_def)
  have init: "initialState lateHalfDraws 0 soilGrid =
     Inr (\<lparr>food = [(0, 0)], blobs = [\<lparr>blob_x = 50, blob_y = 50, stepsSinceMeal = Undefined\<rparr>]\<rparr>,
          40000)"
    by (simp add: initialState_def f b)
  have adv: "advance lateHalfDraws 40000
     \<lparr>food = [(0, 0)], blobs = [\<lparr>blob_x = 50, blob_y = 50, stepsSinceMeal = Undefined\<rparr>]\<rparr> =
     Inr (\<lparr>food = [(0, 0)], blobs = []\<rparr>, 40001)"
    by (simp add: advance_def blobStep_def Let_def atPos_def neighbors_def gridSize_def
        randInt_lateHalfDraws cull_def)
  from first_tick_cull [of soilGrid lateHalfDraws 0 lateHalfDraws 40000] rows init adv
  show ?thesis by simp
qed

text \<open>
  C3 (starvation culling). A blob as \<open>generateBlobs\<close> makes it, at \<open>(5, 5)\<close> with no
  food anywhere: after one tick in which it does not eat it is gone from the state,
  not after the hundredth.
\<close>

theorem unfed_seed_culled_at_once:
  "advance zeroDraws 0
     \<lparr>food = [], blobs = [\<lparr>blob_x = 5, blob_y = 5, stepsSinceMeal = Undefined\<rparr>]\<rparr> =
     Inr (\<lparr>food = [], blobs = []\<rparr>, 1)"
  by (simp add: advance_def blobStep_def Let_def atPos_def neighbors_def gridSize_def
      randInt_zeroDraws cull_def)

section \<open>Claims about terrain generation\<close>

text \<open>
  C5 (full coverage). For every grid size \<open>gs \<ge> 1\<close> and every random source the
  generation loop ends, and the grid it returns has \<open>gs\<close> rows of \<open>gs\<close> cells, each
  cell one of soil, sand and water; so it is for \<^verbatim>\<open>generateGrid\<close> itself, whose size is
  \<open>gridSize\<close>.
\<close>

theorem full_coverage:
  "(1 \<le> gs \<longrightarrow> covers gs (generateGrid_size gs rnd k)) \<and>
   covers gridSize (generateGrid rnd k)"
proof
  show "1 \<le> gs \<longrightarrow> covers gs (generateGrid_size gs rnd k)"
    by (simp add: generateGrid_size_covers)
  have "1 \<le> gridSize" by (simp add: gridSize_def)
  then show "covers gridSize (generateGrid rnd k)"
    unfolding generateGrid_def by (rule generateGrid_size_covers)
qed

theorem full_coverage_witness:
  "(1 :: int) \<le> 2 \<and>
   generateGrid_size 2 zeroDraws 0 =
     Some (Inr ([[Some Soil, Some Soil], [Some Soil, Some Soil]], 35)) \<and>
   covers 2 (Some (Inr ([[Some Soil, Some Soil], [Some Soil, Some Soil]], 35)))"
  using full_coverage [of 2 zeroDraws 0] generateGrid_size_2 by simp

lemma soil_quotient_range:
  assumes "1 \<le> c"
  shows "0 \<le> max (100 - (rat_of_int c - 1) * (1 / 2)) 0 / 100"
    "max (100 - (rat_of_int c - 1) * (1 / 2)) 0 / 100 \<le> 1"
    "max (100 - (rat_of_int c - 1) * (1 / 2)) 0 / 100 = 0 \<or>
     2 powi (- 1022) \<le> max (100 - (rat_of_int c - 1) * (1 / 2)) 0 / 100"
proof -
  let ?v = "max (100 - (rat_of_int c - 1) * (1 / 2)) 0"
  have c: "(1::rat) \<le> of_int c" using assms by simp
  then show "0 \<le> ?v / 100" "?v / 100 \<le> 1" by simp_all
  show "?v / 100 = 0 \<or> 2 powi (- 1022) \<le> ?v / 100"
  proof (cases "c \<le> 200")
    case True
    then have "rat_of_int c \<le> 200" by (metis of_int_le_iff of_int_numeral)
    then have "1 / 200 \<le> ?v / 100" by simp
    moreover have "(2::rat) powi (- 1022) \<le> 1 / 200"
      by (simp add: power_int_minus field_simps)
    ultimately show ?thesis by linarith
  next
    case False
    then have "201 \<le> c" by simp
    then have "(201::rat) \<le> of_int c" by (metis of_int_le_iff of_int_numeral)
    then have "?v = 0" by simp
    then show ?thesis by simp
  qed
qed

lemma sand_quotient_range:
  assumes "1 \<le> c"
  shows "0 \<le> max (100 - (rat_of_int c - 1) * 5) 0 / 100"
    "max (100 - (rat_of_int c - 1) * 5) 0 / 100 \<le> 1"
    "max (100 - (rat_of_int c - 1) * 5) 0 / 100 = 0 \<or>
     2 powi (- 1022) \<le> max (100 - (rat_of_int c - 1) * 5) 0 / 100"
proof -
  let ?v = "max (100 - (rat_of_int c - 1) * 5) 0"
  have c: "(1::rat) \<le> of_int c" using assms by simp
  then show "0 \<le> ?v / 100" "?v / 100 \<le> 1" by simp_all
  show "?v / 100 = 0 \<or> 2 powi (- 1022) \<le> ?v / 100"
  proof (cases "c \<le> 20")
    case True
    then have "rat_of_int c \<le> 20" by (metis of_int_le_iff of_int_numeral)
    then have "1 / 20 \<le> ?v / 100" by simp
    moreover have "(2::rat) powi (- 1022) \<le> 1 / 20"
      by (simp add: power_int_minus field_simps)
    ultimately show ?thesis by linarith
  next
    case False
    then have "21 \<le> c" by simp
    then have "(21::rat) \<le> of_int c" by (metis of_int_le_iff of_int_numeral)
    then have "?v = 0" by simp
    then show ?thesis by simp
  qed
qed

text \<open>
  C6 (terrain transition rules), read with the threshold as the number
  \<open>max (100 - (c - 1) * 5) 0 / 100\<close> itself: the sand branch would be taken exactly when
  the draw is below that number. Below a sand parent with chain value 2 it is \<open>0.95\<close>.
  The program divides in doubles, and the double nearest to \<open>0.95\<close> lies below it; when
  the draw is that double, the draw is below \<open>0.95\<close> and yet not below the program's
  threshold: the neighbour becomes water with chain 1.
\<close>

theorem terrain_transition_counterexample:
  "Math_random sand095Draws 0 = toDouble (95 / 100) \<and>
   Math_random sand095Draws 0 < max (100 - (rat_of_int 2 - 1) * 5) 0 / 100 \<and>
   expandDir 2 sand095Draws (1, 1, Sand, 2)
     (0, [[None, None], [None, Some Sand]], [[0, 0], [0, 2]], []) (-1, 0) =
     (1, [[None, None], [Some Water, Some Sand]], [[0, 0], [1, 2]], [(0, 1, Water, 1)])"
  by (simp add: Let_def cellOf_def setCell_def Math_random_sand095Draws toDouble_sand_2)

text \<open>
  C6 (terrain transition rules), amended. For a chain value \<open>c\<close> that doubles hold
  exactly (\<open>1 \<le> c < 2^53\<close>), expanding from a parent with chain value \<open>c\<close> to a neighbour
  inside the grid that is not yet assigned makes one draw \<open>r\<close>. Below a soil parent the
  neighbour becomes soil with chain \<open>c + 1\<close> exactly when \<open>r\<close> is below the double nearest
  to \<open>max (100 - (c - 1) * 0.5) 0 / 100\<close>, and sand with chain 1 otherwise; below a sand
  parent it becomes sand with chain \<open>c + 1\<close> exactly when \<open>r\<close> is below the double nearest
  to \<open>max (100 - (c - 1) * 5) 0 / 100\<close>, and water with chain 1 otherwise. The kind goes
  to the grid, the chain to the chain grid, and both to the entry pushed on the
  frontier. Each of the two doubles is within \<open>2^(-54)\<close> of the number it rounds.
\<close>

theorem terrain_transition_rounded:
  assumes "wfGrid gs g" "wfGrid gs cg"
    and "nx = px + dx" "ny = py + dy"
    and "inside gs nx ny" "cellOf g nx ny = None"
    and "1 \<le> c" "c < 2 ^ 53"
  shows
    "(case expandDir gs rnd (px, py, Soil, c) (k, g, cg, fr) (dx, dy) of
        (k', g', cg', fr') \<Rightarrow>
          k' = k + 1 \<and>
          (if Math_random rnd k < toDouble (max (100 - (of_int c - 1) * (1 / 2)) 0 / 100)
           then cellOf g' nx ny = Some Soil \<and> cellOf cg' nx ny = c + 1 \<and>
                fr' = fr @ [(nx, ny, Soil, c + 1)]
           else cellOf g' nx ny = Some Sand \<and> cellOf cg' nx ny = 1 \<and>
                fr' = fr @ [(nx, ny, Sand, 1)])) \<and>
     (case expandDir gs rnd (px, py, Sand, c) (k, g, cg, fr) (dx, dy) of
        (k', g', cg', fr') \<Rightarrow>
          k' = k + 1 \<and>
          (if Math_random rnd k < toDouble (max (100 - (of_int c - 1) * 5) 0 / 100)
           then cellOf g' nx ny = Some Sand \<and> cellOf cg' nx ny = c + 1 \<and>
                fr' = fr @ [(nx, ny, Sand, c + 1)]
           else cellOf g' nx ny = Some Water \<and> cellOf cg' nx ny = 1 \<and>
                fr' = fr @ [(nx, ny, Water, 1)])) \<and>
     \<bar>toDouble (max (100 - (of_int c - 1) * (1 / 2)) 0 / 100) -
        max (100 - (of_int c - 1) * (1 / 2)) 0 / 100\<bar> \<le> 1 / 2 ^ 54 \<and>
     \<bar>toDouble (max (100 - (of_int c - 1) * 5) 0 / 100) -
        max (100 - (of_int c - 1) * 5) 0 / 100\<bar> \<le> 1 / 2 ^ 54"
proof (intro conjI)
  have rd: "cellOf (setCell g nx ny v) nx ny = v" for v
    using cellOf_setCell [OF assms(1) assms(5) assms(5)] by simp
  have rc: "cellOf (setCell cg nx ny v) nx ny = v" for v
    using cellOf_setCell [OF assms(2) assms(5) assms(5)] by simp
  from assms(5,6) have guard:
    "\<not> (nx < 0 \<or> gs \<le> nx \<or> ny < 0 \<or> gs \<le> ny)" "\<not> cellOf g nx ny \<noteq> None"
    by (simp_all add: inside_def)
  define ps where "ps = toDouble (max (100 - (rat_of_int c - 1) * (1 / 2)) 0 / 100)"
  define pd where "pd = toDouble (max (100 - (rat_of_int c - 1) * 5) 0 / 100)"
  show "case expandDir gs rnd (px, py, Soil, c) (k, g, cg, fr) (dx, dy) of
        (k', g', cg', fr') \<Rightarrow>
          k' = k + 1 \<and>
          (if Math_random rnd k < toDouble (max (100 - (of_int c - 1) * (1 / 2)) 0 / 100)
           then cellOf g' nx ny = Some Soil \<and> cellOf cg' nx ny = c + 1 \<and>
                fr' = fr @ [(nx, ny, Soil, c + 1)]
           else cellOf g' nx ny = Some Sand \<and> cellOf cg' nx ny = 1 \<and>
                fr' = fr @ [(nx, ny, Sand, 1)])"
    using guard
    unfolding expandDir.simps Let_def assms(3) [symmetric] assms(4) [symmetric]
      ps_def [symmetric]
    by (simp add: rd rc)
  show "case expandDir gs rnd (px, py, Sand, c) (k, g, cg, fr) (dx, dy) of
        (k', g', cg', fr') \<Rightarrow>
          k' = k + 1 \<and>
          (if Math_random rnd k < toDouble (max (100 - (of_int c - 1) * 5) 0 / 100)
           then cellOf g' nx ny = Some Sand \<and> cellOf cg' nx ny = c + 1 \<and>
                fr' = fr @ [(nx, ny, Sand, c + 1)]
           else cellOf g' nx ny = Some Water \<and> cellOf cg' nx ny = 1 \<and>
                fr' = fr @ [(nx, ny, Water, 1)])"
    using guard
    unfolding expandDir.simps Let_def assms(3) [symmetric] assms(4) [symmetric]
      pd_def [symmetric]
    by (simp add: rd rc)
  show "\<bar>toDouble (max (100 - (of_int c - 1) * (1 / 2)) 0 / 100) -
        max (100 - (of_int c - 1) * (1 / 2)) 0 / 100\<bar> \<le> 1 / 2 ^ 54"
    using soil_quotient_range [OF assms(7)] by (rule toDouble_unit_error)
  show "\<bar>toDouble (max (100 - (of_int c - 1) * 5) 0 / 100) -
        max (100 - (of_int c - 1) * 5) 0 / 100\<bar> \<le> 1 / 2 ^ 54"
    using sand_quotient_range [OF assms(7)] by (rule toDouble_unit_error)
qed

theorem terrain_transition_rounded_witness:
  "wfGrid 2 [[None, None], [None, Some Soil]] \<and> wfGrid 2 [[None, None], [None, Some Sand]] \<and>
   wfGrid 2 [[0, 0], [0, 2 :: int]] \<and>
   (0 :: int) = 1 + (-1) \<and> (1 :: int) = 1 + 0 \<and> inside 2 0 1 \<and>
   cellOf [[None, None], [None, Some Soil]] 0 1 = None \<and>
   cellOf [[None, None], [None, Some Sand]] 0 1 = None \<and>
   (1 :: int) \<le> 2 \<and> (2 :: int) < 2 ^ 53 \<and>
   expandDir 2 edgeDraws (1, 1, Soil, 2)
     (0, [[None, None], [None, Some Soil]], [[0, 0], [0, 2]], []) (-1, 0) =
     (1, [[None, None], [Some Soil, Some Soil]], [[0, 0], [3, 2]], [(0, 1, Soil, 3)]) \<and>
   expandDir 2 edgeDraws (1, 1, Soil, 2)
     (1, [[None, None], [None, Some Soil]], [[0, 0], [0, 2]], []) (-1, 0) =
     (2, [[None, None], [Some Sand, Some Soil]], [[0, 0], [1, 2]], [(0, 1, Sand, 1)]) \<and>
   expandDir 2 edgeDraws (1, 1, Sand, 2)
     (0, [[None, None], [None, Some Sand]], [[0, 0], [0, 2]], []) (-1, 0) =
     (1, [[None, None], [Some Sand, Some Sand]], [[0, 0], [3, 2]], [(0, 1, Sand, 3)]) \<and>
   expandDir 2 edgeDraws (1, 1, Sand, 2)
     (1, [[None, None], [None, Some Sand]], [[0, 0], [0, 2]], []) (-1, 0) =
     (2, [[None, None], [Some Water, Some Sand]], [[0, 0], [1, 2]], [(0, 1, Water, 1)]) \<and>
   \<bar>toDouble (199 / 200) - 199 / 200\<bar> \<le> 1 / 2 ^ 54 \<and>
   \<bar>toDouble (19 / 20) - 19 / 20\<bar> \<le> 1 / 2 ^ 54"
proof -
  have soil: "wfGrid 2 [[None, None], [None, Some Soil]]" "wfGrid 2 [[0, 0], [0, 2 :: int]]"
    "(0 :: int) = 1 + (-1)" "(1 :: int) = 1 + 0" "inside 2 0 1"
    "cellOf [[None, None], [None, Some Soil]] 0 1 = None"
    "(1 :: int) \<le> 2" "(2 :: int) < 2 ^ 53"
    by (simp_all add: wfGrid_def inside_def cellOf_def)
  have sand: "wfGrid 2 [[None, None], [None, Some Sand]]" "wfGrid 2 [[0, 0], [0, 2 :: int]]"
    "(0 :: int) = 1 + (-1)" "(1 :: int) = 1 + 0" "inside 2 0 1"
    "cellOf [[None, None], [None, Some Sand]] 0 1 = None"
    "(1 :: int) \<le> 2" "(2 :: int) < 2 ^ 53"
    by (simp_all add: wfGrid_def inside_def cellOf_def)
  have e: "expandDir 2 edgeDraws (1, 1, Soil, 2)
      (0, [[None, None], [None, Some Soil]], [[0, 0], [0, 2]], []) (-1, 0) =
     (1, [[None, None], [Some Soil, Some Soil]], [[0, 0], [3, 2]], [(0, 1, Soil, 3)])"
    "expandDir 2 edgeDraws (1, 1, Soil, 2)
      (1, [[None, None], [None, Some Soil]], [[0, 0], [0, 2]], []) (-1, 0) =
     (2, [[None, None], [Some Sand, Some Soil]], [[0, 0], [1, 2]], [(0, 1, Sand, 1)])"
    "expandDir 2 edgeDraws (1, 1, Sand, 2)
      (0, [[None, None], [None, Some Sand]], [[0, 0], [0, 2]], []) (-1, 0) =
     (1, [[None, None], [Some Sand, Some Sand]], [[0, 0], [3, 2]], [(0, 1, Sand, 3)])"
    "expandDir 2 edgeDraws (1, 1, Sand, 2)
      (1, [[None, None], [None, Some Sand]], [[0, 0], [0, 2]], []) (-1, 0) =
     (2, [[None, None], [Some Water, Some Sand]], [[0, 0], [1, 2]], [(0, 1, Water, 1)])"
    by (simp_all add: Let_def cellOf_def setCell_def Math_random_edgeDraws
        toDouble_soil_2 toDouble_sand_2)
  from terrain_transition_rounded [OF soil, where rnd = edgeDraws and k = 0 and fr = "[]"]
    terrain_transition_rounded [OF soil, where rnd = edgeDraws and k = 1 and fr = "[]"]
    terrain_transition_rounded [OF sand, where rnd = edgeDraws and k = 0 and fr = "[]"]
    terrain_transition_rounded [OF sand, where rnd = edgeDraws and k = 1 and fr = "[]"]
    soil sand e
  show ?thesis by simp
qed

text \<open>
  C7 (water is absorbing). Expanding from a water parent with chain value \<open>c\<close> to a
  neighbour inside the grid that is not yet assigned makes no draw and assigns water with
  chain \<open>c + 1\<close>, whatever the random source; and every entry of the generation branch
  below a water entry is water.
\<close>

theorem water_absorbing:
  assumes "wfGrid gs g" "wfGrid gs cg"
    and "nx = px + dx" "ny = py + dy"
    and "inside gs nx ny" "cellOf g nx ny = None"
  shows
    "(case expandDir gs rnd (px, py, Water, c) (k, g, cg, fr) (dx, dy) of
        (k', g', cg', fr') \<Rightarrow>
          k' = k \<and> cellOf g' nx ny = Some Water \<and> cellOf cg' nx ny = c + 1 \<and>
          fr' = fr @ [(nx, ny, Water, c + 1)]) \<and>
     (\<forall>qx qy t c'. descendant gs rnd (px, py, Water, c) (qx, qy, t, c') \<longrightarrow> t = Water)"
proof
  have rd: "cellOf (setCell g nx ny v) nx ny = v" for v
    using cellOf_setCell [OF assms(1) assms(5) assms(5)] by simp
  have rc: "cellOf (setCell cg nx ny v) nx ny = v" for v
    using cellOf_setCell [OF assms(2) assms(5) assms(5)] by simp
  from assms(5,6) have "\<not> (nx < 0 \<or> gs \<le> nx \<or> ny < 0 \<or> gs \<le> ny)" "\<not> cellOf g nx ny \<noteq> None"
    by (simp_all add: inside_def)
  then show "case expandDir gs rnd (px, py, Water, c) (k, g, cg, fr) (dx, dy) of
        (k', g', cg', fr') \<Rightarrow>
          k' = k \<and> cellOf g' nx ny = Some Water \<and> cellOf cg' nx ny = c + 1 \<and>
          fr' = fr @ [(nx, ny, Water, c + 1)]"
    unfolding expandDir.simps Let_def assms(3) [symmetric] assms(4) [symmetric]
    by (simp add: rd rc)
  show "\<forall>qx qy t c'. descendant gs rnd (px, py, Water, c) (qx, qy, t, c') \<longrightarrow> t = Water"
    using descendant_water [of gs rnd "(px, py, Water, c)"] by fastforce
qed

theorem water_absorbing_witness:
  "wfGrid 2 [[None, None], [None, Some Water]] \<and> wfGrid 2 [[0, 0], [0, 1 :: int]] \<and>
   (0 :: int) = 1 + (-1) \<and> (1 :: int) = 1 + 0 \<and> inside 2 0 1 \<and>
   cellOf [[None, None], [None, Some Water]] 0 1 = None \<and>
   expandDir 2 zeroDraws (1, 1, Water, 1)
     (0, [[None, None], [None, Some Water]], [[0, 0], [0, 1]], []) (-1, 0) =
     (0, [[None, None], [Some Water, Some Water]], [[0, 0], [2, 1]], [(0, 1, Water, 2)]) \<and>
   descendant 2 zeroDraws (1, 1, Water, 1) (0, 1, Water, 2)"
proof -
  have h: "wfGrid 2 [[None, None], [None, Some Water]]" "wfGrid 2 [[0, 0], [0, 1 :: int]]"
    "(0 :: int) = 1 + (-1)" "(1 :: int) = 1 + 0" "inside 2 0 1"
    "cellOf [[None, None], [None, Some Water]] 0 1 = None"
    by (simp_all add: wfGrid_def inside_def cellOf_def)
  have e: "expandDir 2 zeroDraws (1, 1, Water, 1)
      (0, [[None, None], [None, Some Water]], [[0, 0], [0, 1]], []) (-1, 0) =
     (0, [[None, None], [Some Water, Some Water]], [[0, 0], [2, 1]], [] @ [(0, 1, Water, 2)])"
    by (simp add: Let_def cellOf_def setCell_def)
  have d: "descendant 2 zeroDraws (1, 1, Water, 1) (0, 1, Water, 2)"
    by (rule descendant.child [OF descendant.itself e])
  from water_absorbing [OF h, where rnd = zeroDraws and c = 1 and k = 0 and fr = "[]"] h e d
  show ?thesis by simp
qed

end
